theory Spec2Isabelle
  imports Main "HOL-Library.Word"
begin

text \<open>
  A model of the two modules of concorde.js whose sources are at hand: the browser
  module (user-agent predicates and the matching of queries such as \<open>chrome >= 43\<close>)
  and the cookie module (\<open>configure\<close>, \<open>get\<close>, \<open>set\<close>, \<open>unset\<close> over
  \<open>document.cookie\<close>). The functions of the modules are translated from their
  JavaScript; the functions of the host that they call (\<open>split\<close>, \<open>includes\<close>,
  \<open>encodeURIComponent\<close>, \<open>decodeURIComponent\<close>, \<open>RegExp\<close>, \<open>Date\<close>, the cookie store)
  are modelled after ECMAScript and RFC 6265 as far as the modules use them. Arguments
  have the types that the documentation of the modules gives them.
\<close>

section \<open>JavaScript strings and errors\<close>

text \<open>
  A JavaScript string is a sequence of UTF-16 code units. String literals of the
  sources are written \<open>js ''...''\<close>.
\<close>

type_synonym jschar = "16 word"
type_synonym jsstring = "jschar list"

definition js :: "string \<Rightarrow> jsstring" where
  "js s = map (\<lambda>c. of_nat (of_char c)) s"

text \<open>The exceptions the modelled code can raise.\<close>

datatype error = URIError | SyntaxError | TypeError

text \<open>
  \<open>String.prototype.includes\<close>: the pattern occurs somewhere in the string, code unit
  by code unit. The comparison of code units is a parameter, so that the same scan
  serves the case-insensitive regular expression tests below.
\<close>

fun starts_with :: "('a \<Rightarrow> 'a \<Rightarrow> bool) \<Rightarrow> 'a list \<Rightarrow> 'a list \<Rightarrow> bool" where
  "starts_with eq [] s = True"
| "starts_with eq (p # ps) [] = False"
| "starts_with eq (p # ps) (c # cs) = (eq p c \<and> starts_with eq ps cs)"

fun occurs_in :: "('a \<Rightarrow> 'a \<Rightarrow> bool) \<Rightarrow> 'a list \<Rightarrow> 'a list \<Rightarrow> bool" where
  "occurs_in eq pat [] = starts_with eq pat []"
| "occurs_in eq pat (c # cs) = (starts_with eq pat (c # cs) \<or> occurs_in eq pat cs)"

definition includes_str :: "jsstring \<Rightarrow> jsstring \<Rightarrow> bool" where
  "includes_str s pat = occurs_in (=) pat s"

text \<open>
  The character class \<open>\s\<close> of a regular expression: the white space and line
  terminator code units of ECMAScript.
\<close>

definition is_space :: "jschar \<Rightarrow> bool" where
  "is_space c =
     (c = 0x9 \<or> c = 0xA \<or> c = 0xB \<or> c = 0xC \<or> c = 0xD \<or> c = 0x20 \<or> c = 0xA0 \<or>
      c = 0x1680 \<or> (0x2000 \<le> c \<and> c \<le> 0x200A) \<or> c = 0x2028 \<or> c = 0x2029 \<or>
      c = 0x202F \<or> c = 0x205F \<or> c = 0x3000 \<or> c = 0xFEFF)"

text \<open>
  \<open>s.split(/\s+/)\<close>: the pieces of \<open>s\<close> between maximal runs of white space. A
  run at the start or at the end of \<open>s\<close> leaves an empty piece there, and the empty
  string splits into one empty piece. The flag says that the scan is inside a run.
\<close>

fun split_scan :: "bool \<Rightarrow> jsstring \<Rightarrow> jsstring \<Rightarrow> jsstring list" where
  "split_scan in_run piece [] = [piece]"
| "split_scan in_run piece (c # cs) =
     (if is_space c
      then (if in_run then split_scan True piece cs else piece # split_scan True [] cs)
      else split_scan False (piece @ [c]) cs)"

definition split_ws :: "jsstring \<Rightarrow> jsstring list" where
  "split_ws s = split_scan False [] s"

text \<open>
  Reading an array element: \<open>undefined\<close> (here \<open>None\<close>) beyond the end. A template
  literal \<open>`${x}`\<close> turns \<open>undefined\<close> into the text "undefined".
\<close>

definition element :: "'a list \<Rightarrow> nat \<Rightarrow> 'a option" where
  "element xs i = (if i < length xs then Some (xs ! i) else None)"

definition template :: "jsstring option \<Rightarrow> jsstring" where
  "template x = (case x of None \<Rightarrow> js ''undefined'' | Some s \<Rightarrow> s)"

text \<open>
  A regular expression test with the flag \<open>i\<close> and a pattern of ASCII letters and
  spaces: a code unit of the input matches a letter of the pattern when both have the
  same canonical form, and only the ASCII letters are canonicalised to ASCII letters.
\<close>

definition canonical :: "jschar \<Rightarrow> jschar" where
  "canonical c = (if 0x61 \<le> c \<and> c \<le> 0x7A then c - 0x20 else c)"

definition test_i :: "jsstring \<Rightarrow> jsstring \<Rightarrow> bool" where
  "test_i pat s = occurs_in (\<lambda>p c. canonical p = canonical c) pat s"

definition test_exact :: "jsstring \<Rightarrow> jsstring \<Rightarrow> bool" where
  "test_exact pat s = occurs_in (=) pat s"

text \<open>
  Lower-casing of the ASCII letters only: the comparison of attribute names in the
  cookie store, and the case conversion of the sample hosts.
\<close>

definition ascii_lower :: "jsstring \<Rightarrow> jsstring" where
  "ascii_lower s = map (\<lambda>c. if 0x41 \<le> c \<and> c \<le> 0x5A then c + 0x20 else c) s"

section \<open>The browser module\<close>

text \<open>
  The module reads the host's globals on every access. They are gathered in one
  record. \<open>Search\<close> (module \<open>./search\<close>) and \<open>compareVersion\<close> (module \<open>./version\<close>)
  are imported by the browser module; what they return is a field of the record here, so
  that the functions of the browser module are modelled for whatever the imported ones
  do. \<open>compareVersion\<close> may raise; its third argument is \<open>undefined\<close> when the
  query has no third piece. \<open>toLowerCase\<close> is the host's Unicode case conversion.
\<close>

record browser_info =
  string :: jsstring
  subString :: jsstring
  identity :: jsstring

datatype js_flag = Bool bool | Undefined

record host =
  userAgent :: jsstring
  navigator_platform :: jsstring
  ontouchstart_in_window :: bool
  DocumentTouch :: "bool option"
  Search_browser :: browser_info
  Search_platform :: browser_info
  Search_version :: "browser_info \<Rightarrow> int list"
  compareVersion_of :: "int list \<Rightarrow> jsstring \<Rightarrow> jsstring option \<Rightarrow> error + bool"
  toLowerCase :: "jsstring \<Rightarrow> jsstring"

definition currentBrowser :: "host \<Rightarrow> browser_info" where
  "currentBrowser h = Search_browser h"

definition currentPlatform :: "host \<Rightarrow> browser_info" where
  "currentPlatform h = Search_platform h"

definition currentVersion :: "host \<Rightarrow> int list" where
  "currentVersion h = Search_version h (currentBrowser h)"

definition isMobile :: "host \<Rightarrow> bool" where
  "isMobile h =
     list_ex (\<lambda>pat. test_i pat (userAgent h))
       [js ''Android'', js ''CriOS'', js ''FxiOS'', js ''webOS'', js ''iPhone'', js ''iPod'',
        js ''BlackBerry'', js ''IEMobile'', js ''Opera Mini'']"

definition isIphone :: "host \<Rightarrow> bool" where
  "isIphone h = test_exact (js ''iPhone'') (navigator_platform h)"

definition isAndroid :: "host \<Rightarrow> bool" where
  "isAndroid h = test_exact (js ''Android'') (userAgent h)"

definition isTablet :: "host \<Rightarrow> bool" where
  "isTablet h = test_i (js ''iPad'') (userAgent h)"

text \<open>
  \<open>supportsTouchEvents\<close>: the operators \<open>&&\<close> and \<open>||\<close> return one of their
  operands, so the result is \<open>undefined\<close> when neither \<open>ontouchstart\<close> nor
  \<open>window.DocumentTouch\<close> exists on a mobile or tablet device. \<open>DocumentTouch h\<close> is
  \<open>None\<close> when \<open>window.DocumentTouch\<close> is undefined, and otherwise says whether the
  document is an instance of it.
\<close>

definition supportsTouchEvents :: "host \<Rightarrow> js_flag" where
  "supportsTouchEvents h =
     (if isMobile h \<or> isTablet h
      then (if ontouchstart_in_window h then Bool True
            else (case DocumentTouch h of None \<Rightarrow> Undefined | Some b \<Rightarrow> Bool b))
      else Bool False)"

definition matches :: "host \<Rightarrow> jsstring \<Rightarrow> error + bool" where
  "matches h query =
     (let result = split_ws query;
          browser = element result 0
      in if \<not> includes_str (toLowerCase h (identity (currentBrowser h)))
                 (toLowerCase h (template browser))
         then Inr False
         else if length result \<le> 1 then Inr True
         else (let operator = result ! 1;
                   version = element result 2
               in compareVersion_of h (currentVersion h) operator version))"

text \<open>
  \<open>oneOf\<close> takes one query, a list of queries, or nothing (the default parameter is
  the empty list). \<open>filter\<close> calls \<open>matches\<close> on every line in turn; an error raised for
  one line ends the whole call.
\<close>

datatype lines = Absent | Single jsstring | Many "jsstring list"

fun filter_lines :: "('a \<Rightarrow> error + bool) \<Rightarrow> 'a list \<Rightarrow> error + 'a list" where
  "filter_lines p [] = Inr []"
| "filter_lines p (x # xs) =
     (case p x of
        Inl e \<Rightarrow> Inl e
      | Inr b \<Rightarrow> (case filter_lines p xs of
                   Inl e \<Rightarrow> Inl e
                 | Inr ys \<Rightarrow> Inr (if b then x # ys else ys)))"

definition as_list :: "lines \<Rightarrow> jsstring list" where
  "as_list ls = (case ls of Absent \<Rightarrow> [] | Single s \<Rightarrow> [s] | Many xs \<Rightarrow> xs)"

definition oneOf :: "host \<Rightarrow> lines \<Rightarrow> error + bool" where
  "oneOf h ls =
     (case filter_lines (matches h) (as_list ls) of
        Inl e \<Rightarrow> Inl e
      | Inr kept \<Rightarrow> Inr (length kept > 0))"

definition isOutdated :: "host \<Rightarrow> lines \<Rightarrow> error + bool" where
  "isOutdated h supportedBrowsers =
     (case oneOf h supportedBrowsers of Inl e \<Rightarrow> Inl e | Inr b \<Rightarrow> Inr (\<not> b))"


section \<open>Host functions used by the cookie module\<close>

subsection \<open>\<open>encodeURIComponent\<close> and \<open>decodeURIComponent\<close>\<close>

text \<open>
  ECMAScript's \<open>Encode\<close> with the unescaped set of \<open>encodeURIComponent\<close>: letters,
  digits and \<open>- _ . ! ~ * ' ( )\<close> stay; every other code point is written as the
  escape sequences \<open>%XX\<close> of its UTF-8 octets; a surrogate code unit that is not part of
  a pair raises \<open>URIError\<close>.
\<close>

definition uriUnescaped :: "jschar \<Rightarrow> bool" where
  "uriUnescaped c =
     ((0x41 \<le> c \<and> c \<le> 0x5A) \<or> (0x61 \<le> c \<and> c \<le> 0x7A) \<or> (0x30 \<le> c \<and> c \<le> 0x39) \<or>
      c \<in> set (js ''-_.!~*'()''))"

definition utf8 :: "nat \<Rightarrow> nat list" where
  "utf8 v =
     (if v < 0x80 then [v]
      else if v < 0x800 then [0xC0 + v div 0x40, 0x80 + v mod 0x40]
      else if v < 0x10000 then [0xE0 + v div 0x1000, 0x80 + v div 0x40 mod 0x40, 0x80 + v mod 0x40]
      else [0xF0 + v div 0x40000, 0x80 + v div 0x1000 mod 0x40, 0x80 + v div 0x40 mod 0x40,
            0x80 + v mod 0x40])"

definition code_unit :: "nat \<Rightarrow> jschar" where
  "code_unit n = of_nat n"

definition hex_digit :: "nat \<Rightarrow> jschar" where
  "hex_digit n = (if n < 10 then code_unit (0x30 + n) else code_unit (0x41 + (n - 10)))"

definition percent :: "nat list \<Rightarrow> jsstring" where
  "percent octets = concat (map (\<lambda>b. [0x25, hex_digit (b div 16), hex_digit (b mod 16)]) octets)"

definition followed_by :: "'a list \<Rightarrow> error + 'a list \<Rightarrow> error + 'a list" where
  "followed_by xs r = (case r of Inl e \<Rightarrow> Inl e | Inr ys \<Rightarrow> Inr (xs @ ys))"

fun encodeURIComponent :: "jsstring \<Rightarrow> error + jsstring" where
  "encodeURIComponent [] = Inr []"
| "encodeURIComponent (c # cs) =
     (if uriUnescaped c then followed_by [c] (encodeURIComponent cs)
      else if 0xDC00 \<le> c \<and> c \<le> 0xDFFF then Inl URIError
      else if c < 0xD800 \<or> 0xDBFF < c
        then followed_by (percent (utf8 (unat c))) (encodeURIComponent cs)
      else (case cs of
              [] \<Rightarrow> Inl URIError
            | d # ds \<Rightarrow>
                if d < 0xDC00 \<or> 0xDFFF < d then Inl URIError
                else followed_by
                       (percent (utf8 ((unat c - 0xD800) * 0x400 + (unat d - 0xDC00) + 0x10000)))
                       (encodeURIComponent ds)))"

text \<open>The code points that have a UTF-8 encoding: up to \<open>0x10FFFF\<close>, no surrogates.\<close>

definition scalar :: "nat \<Rightarrow> bool" where
  "scalar v = (v \<le> 0x10FFFF \<and> \<not> (0xD800 \<le> v \<and> v \<le> 0xDFFF))"

text \<open>
  ECMAScript's \<open>Decode\<close> with the empty reserved set of \<open>decodeURIComponent\<close>: an
  escape sequence is \<open>%\<close> and two hexadecimal digits; an octet below \<open>0x80\<close> is the
  code unit itself; otherwise the octet starts a UTF-8 sequence of two to four octets,
  each further one an escape sequence of the form \<open>10xxxxxx\<close>, and the sequence must be
  the UTF-8 encoding of a code point (not over-long, not a surrogate, at most
  \<open>0x10FFFF\<close>). Everything else raises \<open>URIError\<close>.
\<close>

definition hex_value :: "jschar \<Rightarrow> nat option" where
  "hex_value c =
     (if 0x30 \<le> c \<and> c \<le> 0x39 then Some (unat c - 0x30)
      else if 0x41 \<le> c \<and> c \<le> 0x46 then Some (unat c - 0x41 + 10)
      else if 0x61 \<le> c \<and> c \<le> 0x66 then Some (unat c - 0x61 + 10)
      else None)"

fun escape_octet :: "jsstring \<Rightarrow> nat option" where
  "escape_octet (p # a # b # rest) =
     (if p = 0x25 then
        (case (hex_value a, hex_value b) of
           (Some x, Some y) \<Rightarrow> Some (16 * x + y)
         | _ \<Rightarrow> None)
      else None)"
| "escape_octet _ = None"

fun continuation :: "nat \<Rightarrow> jsstring \<Rightarrow> nat list option" where
  "continuation 0 s = Some []"
| "continuation (Suc j) s =
     (case escape_octet s of
        None \<Rightarrow> None
      | Some b \<Rightarrow>
          if b div 0x40 \<noteq> 2 then None
          else (case continuation j (drop 3 s) of None \<Rightarrow> None | Some bs \<Rightarrow> Some (b # bs)))"

definition leading_ones :: "nat \<Rightarrow> nat" where
  "leading_ones b =
     (if b < 0x80 then 0 else if b < 0xC0 then 1 else if b < 0xE0 then 2
      else if b < 0xF0 then 3 else if b < 0xF8 then 4 else 5)"

definition utf8_value :: "nat list \<Rightarrow> nat option" where
  "utf8_value octets =
     (case octets of
        [a, b] \<Rightarrow>
          (let v = (a - 0xC0) * 0x40 + (b - 0x80) in if 0x80 \<le> v then Some v else None)
      | [a, b, c] \<Rightarrow>
          (let v = (a - 0xE0) * 0x1000 + (b - 0x80) * 0x40 + (c - 0x80)
           in if 0x800 \<le> v \<and> \<not> (0xD800 \<le> v \<and> v \<le> 0xDFFF) then Some v else None)
      | [a, b, c, d] \<Rightarrow>
          (let v = (a - 0xF0) * 0x40000 + (b - 0x80) * 0x1000 + (c - 0x80) * 0x40 + (d - 0x80)
           in if 0x10000 \<le> v \<and> v \<le> 0x10FFFF then Some v else None)
      | _ \<Rightarrow> None)"

definition utf16 :: "nat \<Rightarrow> jsstring" where
  "utf16 v =
     (if v < 0x10000 then [code_unit v]
      else [code_unit (0xD800 + (v - 0x10000) div 0x400),
            code_unit (0xDC00 + (v - 0x10000) mod 0x400)])"

fun decodeURIComponent :: "jsstring \<Rightarrow> error + jsstring" where
  "decodeURIComponent [] = Inr []"
| "decodeURIComponent (c # cs) =
     (if c \<noteq> 0x25 then followed_by [c] (decodeURIComponent cs)
      else (case escape_octet (c # cs) of
              None \<Rightarrow> Inl URIError
            | Some b \<Rightarrow>
                if b < 0x80 then followed_by [code_unit b] (decodeURIComponent (drop 2 cs))
                else (let n = leading_ones b in
                      if n = 1 \<or> 4 < n then Inl URIError
                      else (case continuation (n - 1) (drop 2 cs) of
                              None \<Rightarrow> Inl URIError
                            | Some octets \<Rightarrow>
                                (case utf8_value (b # octets) of
                                   None \<Rightarrow> Inl URIError
                                 | Some v \<Rightarrow>
                                     followed_by (utf16 v)
                                       (decodeURIComponent (drop (3 * (n - 1)) (drop 2 cs))))))))"

text \<open>
  A string is well formed when each of its surrogate code units is part of a pair (a
  high surrogate followed by a low one). The code units that \<open>encodeURIComponent\<close>
  writes are the unescaped ones and \<open>%\<close>.
\<close>

fun well_formed :: "jsstring \<Rightarrow> bool" where
  "well_formed [] = True"
| "well_formed (c # cs) =
     (if 0xDC00 \<le> c \<and> c \<le> 0xDFFF then False
      else if c < 0xD800 \<or> 0xDBFF < c then well_formed cs
      else (case cs of [] \<Rightarrow> False | d # ds \<Rightarrow> 0xDC00 \<le> d \<and> d \<le> 0xDFFF \<and> well_formed ds))"

definition escaped_text :: "jsstring \<Rightarrow> bool" where
  "escaped_text e = list_all (\<lambda>c. uriUnescaped c \<or> c = 0x25) e"

subsection \<open>The regular expression of \<open>get\<close>\<close>

text \<open>
  \<open>get\<close> builds \<open>new RegExp('(?:^|; )' + encodeURIComponent(key) + '=([^;]*)')\<close>. The
  encoded key consists of letters, digits, \<open>%\<close> and \<open>- _ . ! ~ * ' ( )\<close>; of these \<open>.\<close>,
  \<open>*\<close>, \<open>(\<close> and \<open>)\<close> are syntax characters of a pattern and the others stand for
  themselves. So the patterns that can arise are built from the following nodes:
  the group \<open>(?:^|; )\<close>, a literal code unit, \<open>.\<close>, the class \<open>[^;]\<close>, a capturing
  group with its number, and \<open>*\<close> applied to a node.
\<close>

datatype node =
    Start_or_separator
  | Unit jschar
  | Dot
  | Not_semicolon
  | Empty
  | Seq node node
  | Group nat node
  | Star node

definition sequence :: "node list \<Rightarrow> node" where
  "sequence ns = foldr Seq ns Empty"

text \<open>
  The pattern is read from left to right. \<open>parse_key g opened terms k\<close> has seen \<open>g\<close>
  opening parentheses; \<open>opened\<close> holds, for every group still open, its number and the
  terms that precede it at its level (innermost group first); \<open>terms\<close> are the terms of
  the current level, the latest first. \<open>*\<close> with nothing before it at its level, or
  after another \<open>*\<close>, is a syntax error ("nothing to repeat"), and so is \<open>)\<close> without
  an open group. The parse of the key starts after \<open>(?:^|; )\<close>, so a \<open>*\<close> at the start
  of the key repeats that group. The key is followed by \<open>=([^;]*)\<close>, whose parentheses
  are balanced: a group of the key that is still open at the end of the key stays open
  to the end of the pattern, which is a syntax error ("unterminated group").
\<close>

fun is_star :: "node \<Rightarrow> bool" where
  "is_star (Star p) = True"
| "is_star p = False"

fun parse_key ::
  "nat \<Rightarrow> (nat \<times> node list) list \<Rightarrow> node list \<Rightarrow> jsstring \<Rightarrow> error + nat \<times> node list" where
  "parse_key g opened terms [] = (if opened = [] then Inr (g, terms) else Inl SyntaxError)"
| "parse_key g opened terms (c # cs) =
     (if c = 0x28 then parse_key (Suc g) ((Suc g, terms) # opened) [] cs
      else if c = 0x29 then
        (case opened of
           [] \<Rightarrow> Inl SyntaxError
         | (i, outer) # rest \<Rightarrow> parse_key g rest (Group i (sequence (rev terms)) # outer) cs)
      else if c = 0x2A then
        (case terms of
           [] \<Rightarrow> Inl SyntaxError
         | t # ts \<Rightarrow> if is_star t then Inl SyntaxError else parse_key g opened (Star t # ts) cs)
      else if c = 0x2E then parse_key g opened (Dot # terms) cs
      else parse_key g opened (Unit c # terms) cs)"

text \<open>The whole pattern: the group \<open>(?:^|; )\<close>, the key, \<open>=\<close> and the group of the value.\<close>

definition cookie_pattern :: "jsstring \<Rightarrow> error + node" where
  "cookie_pattern k =
     (case parse_key 0 [] [Start_or_separator] k of
        Inl e \<Rightarrow> Inl e
      | Inr (g, terms) \<Rightarrow>
          Inr (sequence (rev terms @ [Unit 0x3D, Group (Suc g) (Star Not_semicolon)])))"

text \<open>
  A text is plain when it has none of the four syntax characters \<open>( ) * .\<close> that
  an encoded key can carry into the pattern.
\<close>

definition plain :: "jsstring \<Rightarrow> bool" where
  "plain k = list_all (\<lambda>c. c \<noteq> 0x28 \<and> c \<noteq> 0x29 \<and> c \<noteq> 0x2A \<and> c \<noteq> 0x2E) k"

text \<open>
  Matching follows ECMAScript's backtracking semantics: \<open>run p x\<close> lists the positions
  that \<open>p\<close> can reach from \<open>x\<close>, the one tried first at the head. A position is the rest
  of the input, whether it is the start of the input (for \<open>^\<close>), and the captures.
  \<open>*\<close> is greedy; before each repetition the captures of the groups inside are
  cleared, and a repetition that consumes nothing is rejected. \<open>.\<close> matches every code
  unit but a line terminator.
\<close>

type_synonym captures = "nat \<Rightarrow> jsstring option"
type_synonym position = "bool \<times> jsstring \<times> captures"

fun groups_in :: "node \<Rightarrow> nat list" where
  "groups_in (Seq p q) = groups_in p @ groups_in q"
| "groups_in (Group i p) = i # groups_in p"
| "groups_in (Star p) = groups_in p"
| "groups_in p = []"

definition line_terminator :: "jschar \<Rightarrow> bool" where
  "line_terminator c = (c = 0xA \<or> c = 0xD \<or> c = 0x2028 \<or> c = 0x2029)"

definition clear :: "nat list \<Rightarrow> captures \<Rightarrow> captures" where
  "clear gs c = (\<lambda>i. if i \<in> set gs then None else c i)"

function run :: "node \<Rightarrow> position \<Rightarrow> position list" where
  "run Start_or_separator (b, s, c) =
     (if b then [(b, s, c)] else []) @
     (case s of x # y # t \<Rightarrow> if x = 0x3B \<and> y = 0x20 then [(False, t, c)] else [] | _ \<Rightarrow> [])"
| "run (Unit u) (b, s, c) = (case s of [] \<Rightarrow> [] | x # t \<Rightarrow> if x = u then [(False, t, c)] else [])"
| "run Dot (b, s, c) =
     (case s of [] \<Rightarrow> [] | x # t \<Rightarrow> if line_terminator x then [] else [(False, t, c)])"
| "run Not_semicolon (b, s, c) =
     (case s of [] \<Rightarrow> [] | x # t \<Rightarrow> if x = 0x3B then [] else [(False, t, c)])"
| "run Empty (b, s, c) = [(b, s, c)]"
| "run (Seq p q) (b, s, c) = concat (map (run q) (run p (b, s, c)))"
| "run (Group i p) (b, s, c) =
     map (\<lambda>(b', s', c'). (b', s', c'(i \<mapsto> take (length s - length s') s))) (run p (b, s, c))"
| "run (Star p) (b, s, c) =
     concat (map (\<lambda>(b', s', c'). if length s' < length s then run (Star p) (b', s', c') else [])
               (run p (b, s, clear (groups_in p) c)))
     @ [(b, s, c)]"
  by pat_completeness auto
termination
  by (relation "measures [\<lambda>(p, b, s, c). size p, \<lambda>(p, b, s, c). length s]") auto

text \<open>
  \<open>s.match(regexp)\<close> for a pattern without the flag \<open>g\<close>: the first start index (from
  \<open>0\<close> to the length of \<open>s\<close>) at which the pattern matches, with the captures of the
  first way to match there; \<open>null\<close> (here \<open>None\<close>) when there is none.
\<close>

fun search :: "node \<Rightarrow> bool \<Rightarrow> jsstring \<Rightarrow> position option" where
  "search p b s =
     (case run p (b, s, (\<lambda>i. None)) of
        x # _ \<Rightarrow> Some x
      | [] \<Rightarrow> (case s of [] \<Rightarrow> None | _ # t \<Rightarrow> search p False t))"

definition match_captures :: "node \<Rightarrow> jsstring \<Rightarrow> captures option" where
  "match_captures p s = map_option (\<lambda>(b, s', c). c) (search p True s)"

subsection \<open>Dates\<close>

text \<open>
  A \<open>Date\<close> holds a time value in milliseconds since the epoch (UTC), or is invalid.
  The host supplies the current time, the offset of the local time zone (\<open>LocalTZA\<close>:
  at a time value when the flag is true, at a local time when it is false, where the
  host decides what a local time that is skipped or repeated stands for), the text of
  a date (\<open>toUTCString\<close>) and, on the side of the cookie store, the reading of a date
  text.
\<close>

datatype date = Date int | Invalid_Date

record clock =
  now :: int
  LocalTZA :: "int \<Rightarrow> bool \<Rightarrow> int"
  toUTCString :: "date \<Rightarrow> jsstring"
  parse_cookie_date :: "jsstring \<Rightarrow> int option"

definition msPerDay :: int where
  "msPerDay = 86400000"

definition time_clip :: "int \<Rightarrow> date" where
  "time_clip t = (if \<bar>t\<bar> \<le> 8640000000000000 then Date t else Invalid_Date)"

definition LocalTime :: "clock \<Rightarrow> int \<Rightarrow> int" where
  "LocalTime h t = t + LocalTZA h t True"

definition UTC :: "clock \<Rightarrow> int \<Rightarrow> int" where
  "UTC h t = t - LocalTZA h t False"

text \<open>
  The calendar of the language: day numbers, years, months (from \<open>0\<close>) and days of the
  month (from \<open>1\<close>). \<open>YearFromTime\<close> is the last year that starts at or before the
  time; it is found going down from a year that starts after it. \<open>month_start m leap\<close>
  is the number of days of the year before the month \<open>m\<close>.
\<close>

definition Day :: "int \<Rightarrow> int" where
  "Day t = t div msPerDay"

definition TimeWithinDay :: "int \<Rightarrow> int" where
  "TimeWithinDay t = t mod msPerDay"

definition DaysInYear :: "int \<Rightarrow> int" where
  "DaysInYear y =
     (if y mod 4 \<noteq> 0 then 365 else if y mod 100 \<noteq> 0 then 366
      else if y mod 400 \<noteq> 0 then 365 else 366)"

definition DayFromYear :: "int \<Rightarrow> int" where
  "DayFromYear y =
     365 * (y - 1970) + (y - 1969) div 4 - (y - 1901) div 100 + (y - 1601) div 400"

function last_year_from :: "int \<Rightarrow> int \<Rightarrow> int" where
  "last_year_from d y = (if DayFromYear y \<le> d then y else last_year_from d (y - 1))"
  by pat_completeness auto

termination
proof (relation "measure (\<lambda>(d, y). nat (DayFromYear y - d))")
  show "wf (measure (\<lambda>(d, y). nat (DayFromYear y - d)))" by simp
next
  fix d y :: int
  assume more: "\<not> DayFromYear y \<le> d"
  define a b c where "a = (y - 1969) div 4" and "b = (y - 1901) div 100"
    and "c = (y - 1601) div 400"
  define a' b' c' where "a' = (y - 1 - 1969) div 4" and "b' = (y - 1 - 1901) div 100"
    and "c' = (y - 1 - 1601) div 400"
  have "a' \<le> a" unfolding a_def a'_def by (rule zdiv_mono1) simp_all
  moreover have "c' \<le> c" unfolding c_def c'_def by (rule zdiv_mono1) simp_all
  moreover have "b \<le> (y - 1 - 1901 + 100) div 100"
    unfolding b_def by (rule zdiv_mono1) simp_all
  then have "b \<le> b' + 1" unfolding b'_def by simp
  moreover have "DayFromYear y = 365 * (y - 1970) + a - b + c"
    unfolding DayFromYear_def a_def b_def c_def by (rule refl)
  moreover have "DayFromYear (y - 1) = 365 * (y - 1 - 1970) + a' - b' + c'"
    unfolding DayFromYear_def a'_def b'_def c'_def by (rule refl)
  ultimately have "DayFromYear (y - 1) < DayFromYear y" by simp
  with more show "((d, y - 1), (d, y)) \<in> measure (\<lambda>(d, y). nat (DayFromYear y - d))"
    by simp
qed

definition YearFromTime :: "int \<Rightarrow> int" where
  "YearFromTime t =
     (let d = Day t in last_year_from d (if 0 \<le> d then 1971 + d div 365 else 1970))"

definition InLeapYear :: "int \<Rightarrow> int" where
  "InLeapYear t = (if DaysInYear (YearFromTime t) = 366 then 1 else 0)"

definition DayWithinYear :: "int \<Rightarrow> int" where
  "DayWithinYear t = Day t - DayFromYear (YearFromTime t)"

definition month_start :: "int \<Rightarrow> int \<Rightarrow> int" where
  "month_start m leap =
     (if m = 0 then 0 else if m = 1 then 31 else if m = 2 then 59 + leap
      else if m = 3 then 90 + leap else if m = 4 then 120 + leap
      else if m = 5 then 151 + leap else if m = 6 then 181 + leap
      else if m = 7 then 212 + leap else if m = 8 then 243 + leap
      else if m = 9 then 273 + leap else if m = 10 then 304 + leap else 334 + leap)"

definition MonthFromTime :: "int \<Rightarrow> int" where
  "MonthFromTime t =
     (let d = DayWithinYear t;
          leap = InLeapYear t
      in if d < 31 then 0 else if d < 59 + leap then 1 else if d < 90 + leap then 2
         else if d < 120 + leap then 3 else if d < 151 + leap then 4
         else if d < 181 + leap then 5 else if d < 212 + leap then 6
         else if d < 243 + leap then 7 else if d < 273 + leap then 8
         else if d < 304 + leap then 9 else if d < 334 + leap then 10 else 11)"

definition DateFromTime :: "int \<Rightarrow> int" where
  "DateFromTime t = DayWithinYear t - month_start (MonthFromTime t) (InLeapYear t) + 1"

definition MakeDay :: "int \<Rightarrow> int \<Rightarrow> int \<Rightarrow> int" where
  "MakeDay year month dt =
     (let ym = year + month div 12;
          mn = month mod 12
      in DayFromYear ym + month_start mn (if DaysInYear ym = 366 then 1 else 0) + dt - 1)"

definition MakeDate :: "int \<Rightarrow> int \<Rightarrow> int" where
  "MakeDate day time = day * msPerDay + time"

text \<open>
  \<open>getDate\<close> is the day of the month of the local time of the date; \<open>setDate\<close> makes a
  local time from the year and the month of the local time of the date, the given day
  of the month (any integer: a day out of the month counts on into the neighbouring
  months) and the time within the day, and stores its UTC time, clipped to the range
  of time values. Neither is called on an invalid date here.
\<close>

definition getDate :: "clock \<Rightarrow> int \<Rightarrow> int" where
  "getDate h t = DateFromTime (LocalTime h t)"

definition setDate :: "clock \<Rightarrow> int \<Rightarrow> int \<Rightarrow> date" where
  "setDate h t dt =
     (let l = LocalTime h t
      in time_clip (UTC h (MakeDate (MakeDay (YearFromTime l) (MonthFromTime l) dt)
                             (TimeWithinDay l))))"

text \<open>
  Lines 97 and 98 of the source: \<open>opts.expires = new Date()\<close> and
  \<open>opts.expires.setDate(opts.expires.getDate() + opts.days)\<close>.
\<close>

definition expiry_in_days :: "clock \<Rightarrow> int \<Rightarrow> date" where
  "expiry_in_days h n = setDate h (now h) (getDate h (now h) + n)"

subsection \<open>The cookie store behind \<open>document.cookie\<close>\<close>

text \<open>
  \<open>Array.prototype.join\<close>.
\<close>

fun join :: "'a list \<Rightarrow> 'a list list \<Rightarrow> 'a list" where
  "join sep [] = []"
| "join sep [x] = x"
| "join sep (x # y # ys) = x @ sep @ join sep (y # ys)"

text \<open>
  The store is the list of the cookies' names and values, in the order of their
  creation. Reading \<open>document.cookie\<close> gives \<open>name=value\<close> for each, joined by
  \<open>"; "\<close>. Assigning a text to \<open>document.cookie\<close> follows RFC 6265, sections 5.2 and
  5.3, for the name, the value and the attribute \<open>Expires\<close>: the text up to the first
  \<open>;\<close> is the pair, which is ignored when it has no \<open>=\<close> or an empty name; name and
  value are trimmed of spaces and tabs; the last \<open>Expires\<close> attribute whose value the
  store can read as a date is the expiry time; a cookie whose expiry time is in the
  past removes the cookie of its name, and any other cookie replaces the cookie of its
  name or is added at the end. The attributes \<open>Path\<close>, \<open>Domain\<close>, \<open>Secure\<close> and
  \<open>Max-Age\<close> and the limits on sizes are not modelled: the document is taken to be one
  that every cookie applies to.
\<close>

type_synonym cookie_jar = "(jsstring \<times> jsstring) list"

definition trim :: "jsstring \<Rightarrow> jsstring" where
  "trim s = (let wsp = (\<lambda>c. c = 0x20 \<or> c = 0x9)
             in rev (dropWhile wsp (rev (dropWhile wsp s))))"

fun split_on :: "'a \<Rightarrow> 'a list \<Rightarrow> 'a list list" where
  "split_on sep [] = [[]]"
| "split_on sep (c # cs) =
     (if c = sep then [] # split_on sep cs
      else (case split_on sep cs of [] \<Rightarrow> [[c]] | p # ps \<Rightarrow> (c # p) # ps))"

definition before :: "'a \<Rightarrow> 'a list \<Rightarrow> 'a list" where
  "before sep s = takeWhile (\<lambda>c. c \<noteq> sep) s"

definition after :: "'a \<Rightarrow> 'a list \<Rightarrow> 'a list" where
  "after sep s = drop 1 (dropWhile (\<lambda>c. c \<noteq> sep) s)"

fun expiry_time :: "clock \<Rightarrow> jsstring list \<Rightarrow> int option \<Rightarrow> int option" where
  "expiry_time h [] found = found"
| "expiry_time h (a # as) found =
     (if ascii_lower (trim (before 0x3D a)) = js ''expires''
      then (case parse_cookie_date h (trim (after 0x3D a)) of
              None \<Rightarrow> expiry_time h as found
            | Some t \<Rightarrow> expiry_time h as (Some t))
      else expiry_time h as found)"

fun store :: "jsstring \<Rightarrow> jsstring \<Rightarrow> cookie_jar \<Rightarrow> cookie_jar" where
  "store n v [] = [(n, v)]"
| "store n v ((m, w) # cookies) =
     (if m = n then (n, v) # cookies else (m, w) # store n v cookies)"

definition write_cookie :: "clock \<Rightarrow> jsstring \<Rightarrow> cookie_jar \<Rightarrow> cookie_jar" where
  "write_cookie h s cookies =
     (let pair = before 0x3B s;
          attributes = split_on 0x3B (after 0x3B s);
          name = trim (before 0x3D pair);
          content = trim (after 0x3D pair)
      in if 0x3D \<notin> set pair \<or> name = [] then cookies
         else (case expiry_time h attributes None of
                 None \<Rightarrow> store name content cookies
               | Some t \<Rightarrow>
                   if t < now h then filter (\<lambda>(m, w). m \<noteq> name) cookies
                   else store name content cookies))"

definition read_cookie :: "cookie_jar \<Rightarrow> jsstring" where
  "read_cookie cookies = join (js ''; '') (map (\<lambda>(n, v). n @ js ''='' @ v) cookies)"

text \<open>
  What the store holds, whatever was assigned to it: names that are not empty and have
  neither \<open>;\<close> nor \<open>=\<close>, and values without \<open>;\<close>.
\<close>

definition well_formed_jar :: "cookie_jar \<Rightarrow> bool" where
  "well_formed_jar cookies =
     list_all (\<lambda>(n, v). n \<noteq> [] \<and> 0x3B \<notin> set n \<and> 0x3D \<notin> set n \<and> 0x3B \<notin> set v) cookies"

section \<open>The cookie module\<close>

text \<open>
  The options of a cookie; a field that the object does not have is \<open>None\<close>.
  \<open>Object.assign({}, a, b)\<close> takes every field that \<open>b\<close> has from \<open>b\<close> and the others
  from \<open>a\<close>. \<open>days\<close> is whatever the caller passed; \<open>Number.isInteger\<close> tells the
  integers from everything else.
\<close>

datatype days_value = Integer int | Not_integer

record cookie_options =
  expires :: "date option"
  path :: "jsstring option"
  domain :: "jsstring option"
  secure :: "bool option"
  days :: "days_value option"
  raw :: "bool option"

definition no_options :: cookie_options where
  "no_options =
     \<lparr> expires = None, path = None, domain = None, secure = None, days = None, raw = None \<rparr>"

definition override :: "'a option \<Rightarrow> 'a option \<Rightarrow> 'a option" where
  "override a b = (case b of None \<Rightarrow> a | Some x \<Rightarrow> Some x)"

definition assign :: "cookie_options \<Rightarrow> cookie_options \<Rightarrow> cookie_options" where
  "assign a b =
     \<lparr> expires = override (expires a) (expires b),
       path = override (path a) (path b),
       domain = override (domain a) (domain b),
       secure = override (secure a) (secure b),
       days = override (days a) (days b),
       raw = override (raw a) (raw b) \<rparr>"

text \<open>
  The state that the module's functions read and write: the module's own \<open>options\<close>
  (initially \<open>{}\<close>) and the cookie store of the document.
\<close>

record state =
  options :: cookie_options
  jar :: cookie_jar

definition configure :: "state \<Rightarrow> cookie_options \<Rightarrow> state" where
  "configure st opts = st \<lparr> options := assign no_options opts \<rparr>"

text \<open>
  \<open>get(key, { defaultValue = null, raw = false } = {})\<close>: the two named parameters
  are \<open>None\<close> when the caller does not give them. The result is \<open>null\<close>, the caller's
  default, a text, or \<open>undefined\<close> (a capture that did not take part in the match, under
  \<open>raw\<close>). \<open>decodeURIComponent\<close> turns its argument into a string first, so
  \<open>undefined\<close> is decoded as the text "undefined".
\<close>

datatype 'd outcome = Null | Default 'd | Text jsstring | Undefined_text

definition fallback :: "'d option \<Rightarrow> 'd outcome" where
  "fallback d = (case d of None \<Rightarrow> Null | Some x \<Rightarrow> Default x)"

definition truthy :: "bool option \<Rightarrow> bool" where
  "truthy b = (b = Some True)"

definition get_cookie ::
  "state \<Rightarrow> jsstring \<Rightarrow> 'd option \<Rightarrow> bool option \<Rightarrow> error + 'd outcome" where
  "get_cookie st k defaultValue raw_given =
     (if read_cookie (jar st) = [] then Inr (fallback defaultValue)
      else (case encodeURIComponent k of
              Inl e \<Rightarrow> Inl e
            | Inr safeKey \<Rightarrow>
                (case cookie_pattern safeKey of
                   Inl e \<Rightarrow> Inl e
                 | Inr regexp \<Rightarrow>
                     (case match_captures regexp (read_cookie (jar st)) of
                        None \<Rightarrow> Inr (fallback defaultValue)
                      | Some result \<Rightarrow>
                          if truthy raw_given
                          then Inr (case result 1 of None \<Rightarrow> Undefined_text | Some t \<Rightarrow> Text t)
                          else (case decodeURIComponent (template (result 1)) of
                                  Inl e \<Rightarrow> Inl e
                                | Inr t \<Rightarrow> Inr (Text t))))))"

text \<open>
  \<open>set(key, value = null, options = {})\<close>, in three steps: the options in force
  (\<open>set_opts\<close>, lines 88 to 99 of the source), the text of the cookie (\<open>serialize\<close>,
  lines 101 to 132) and the assignment to \<open>document.cookie\<close>. The value is a text or
  \<open>null\<close> (\<open>None\<close>), and \<open>String(null)\<close> is the text "null". An option is in force when
  it is truthy: a date always is, a text when it is not empty.
\<close>

definition String :: "jsstring option \<Rightarrow> jsstring" where
  "String v = (case v of None \<Rightarrow> js ''null'' | Some s \<Rightarrow> s)"

definition set_opts ::
  "clock \<Rightarrow> cookie_options \<Rightarrow> jsstring option \<Rightarrow> cookie_options \<Rightarrow> cookie_options" where
  "set_opts h this_options v call_options =
     (let opts = assign this_options call_options;
          opts = (if v = None then opts \<lparr> days := Some (Integer (- 1)) \<rparr> else opts)
      in (case days opts of
            Some (Integer n) \<Rightarrow> opts \<lparr> expires := Some (expiry_in_days h n) \<rparr>
          | _ \<Rightarrow> opts))"

definition cookieBuilder :: "clock \<Rightarrow> jsstring \<Rightarrow> jsstring \<Rightarrow> cookie_options \<Rightarrow> jsstring list" where
  "cookieBuilder h safeKey safeValue opts =
     [safeKey @ js ''='' @ safeValue] @
     (case expires opts of None \<Rightarrow> [] | Some e \<Rightarrow> [js ''expires='' @ toUTCString h e]) @
     (case path opts of None \<Rightarrow> [] | Some p \<Rightarrow> if p = [] then [] else [js ''path='' @ p]) @
     (case domain opts of None \<Rightarrow> [] | Some d \<Rightarrow> if d = [] then [] else [js ''domain='' @ d]) @
     (if truthy (secure opts) then [js ''secure''] else [])"

definition serialize ::
  "clock \<Rightarrow> jsstring \<Rightarrow> jsstring option \<Rightarrow> cookie_options \<Rightarrow> error + jsstring" where
  "serialize h k v opts =
     (case encodeURIComponent k of
        Inl e \<Rightarrow> Inl e
      | Inr safeKey \<Rightarrow>
          (case (if truthy (raw opts) then Inr (String v) else encodeURIComponent (String v)) of
             Inl e \<Rightarrow> Inl e
           | Inr safeValue \<Rightarrow> Inr (join (js ''; '') (cookieBuilder h safeKey safeValue opts))))"

definition set_cookie ::
  "clock \<Rightarrow> state \<Rightarrow> jsstring \<Rightarrow> jsstring option \<Rightarrow> cookie_options \<Rightarrow> error + state" where
  "set_cookie h st k v call_options =
     (case serialize h k v (set_opts h (options st) v call_options) of
        Inl e \<Rightarrow> Inl e
      | Inr s \<Rightarrow> Inr (st \<lparr> jar := write_cookie h s (jar st) \<rparr>))"

definition unset :: "clock \<Rightarrow> state \<Rightarrow> jsstring \<Rightarrow> cookie_options \<Rightarrow> error + state" where
  "unset h st k call_options = set_cookie h st k None call_options"

section \<open>Notions used in the proofs\<close>

text \<open>
  The pattern of a plain key \<open>k\<close>: \<open>(?:^|; )\<close>, the code units of \<open>k\<close>, \<open>=\<close> and the
  group of the value; and the same without its first node.
\<close>

definition key_pattern :: "jsstring \<Rightarrow> node" where
  "key_pattern k =
     sequence (Start_or_separator # map Unit k @ [Unit 0x3D, Group 1 (Star Not_semicolon)])"

definition value_pattern :: "jsstring \<Rightarrow> node" where
  "value_pattern k = sequence (map Unit k @ [Unit 0x3D, Group 1 (Star Not_semicolon)])"

text \<open>
  The text of one cookie in \<open>document.cookie\<close>, and the text of the cookies after the
  first, each with its separator.
\<close>

definition entry_text :: "jsstring \<times> jsstring \<Rightarrow> jsstring" where
  "entry_text e = fst e @ 0x3D # snd e"

definition tail_text :: "cookie_jar \<Rightarrow> jsstring" where
  "tail_text cookies = concat (map (\<lambda>e. 0x3B # 0x20 # entry_text e) cookies)"

text \<open>The captures of a match that found the value \<open>v\<close>, and those of a search.\<close>

definition found :: "jsstring option \<Rightarrow> captures option" where
  "found r = map_option (\<lambda>v. (\<lambda>i. None)(1 \<mapsto> v)) r"

definition captures_at :: "position option \<Rightarrow> captures option" where
  "captures_at r = map_option (\<lambda>(b, s, c). c) r"

section \<open>The modules that are not in the sources\<close>

subsection \<open>\<open>compareVersion\<close> (module \<open>./version\<close>)\<close>

text \<open>
  Modelled from the spec: \<open>compareVersion\<close> of the module \<open>./version\<close>, which the
  browser module imports and the sources do not contain. The spec, section 4.1:
  "compares component-wise left to right; \<open>expected\<close> is split on \<open>.\<close>; missing components
  on either side treated as \<open>0\<close>; standard lexicographic integer comparison per operator",
  the operator being one of \<open>< <= > >= == = !=\<close>. The spec says nothing about another
  operator or about a component of \<open>expected\<close> that is not a decimal numeral; the model
  gives no result (\<open>None\<close>) there.
\<close>

datatype comparison = Less | Equal | Greater

fun compare_components :: "int list \<Rightarrow> int list \<Rightarrow> comparison" where
  "compare_components [] [] = Equal"
| "compare_components (a # as) [] =
     (if a < 0 then Less else if 0 < a then Greater else compare_components as [])"
| "compare_components [] (b # bs) =
     (if 0 < b then Less else if b < 0 then Greater else compare_components [] bs)"
| "compare_components (a # as) (b # bs) =
     (if a < b then Less else if b < a then Greater else compare_components as bs)"

fun decimal_digits :: "int \<Rightarrow> jsstring \<Rightarrow> int option" where
  "decimal_digits n [] = Some n"
| "decimal_digits n (c # cs) =
     (if 0x30 \<le> c \<and> c \<le> 0x39 then decimal_digits (10 * n + int (unat c - 0x30)) cs else None)"

definition decimal :: "jsstring \<Rightarrow> int option" where
  "decimal s = (if s = [] then None else decimal_digits 0 s)"

fun all_some :: "'a option list \<Rightarrow> 'a list option" where
  "all_some [] = Some []"
| "all_some (x # xs) =
     (case x of None \<Rightarrow> None | Some y \<Rightarrow> (case all_some xs of None \<Rightarrow> None | Some ys \<Rightarrow> Some (y # ys)))"

definition holds :: "jsstring \<Rightarrow> comparison \<Rightarrow> bool option" where
  "holds operator c =
     (if operator = js ''<'' then Some (c = Less)
      else if operator = js ''<='' then Some (c \<noteq> Greater)
      else if operator = js ''>'' then Some (c = Greater)
      else if operator = js ''>='' then Some (c \<noteq> Less)
      else if operator = js ''=='' \<or> operator = js ''='' then Some (c = Equal)
      else if operator = js ''!='' then Some (c \<noteq> Equal)
      else None)"

text \<open>
  Modelled from the spec: \<open>compareVersion(actual, operator, expected)\<close>, missing from
  the sources; \<open>None\<close> where the spec gives no result.
\<close>

definition compareVersion :: "int list \<Rightarrow> jsstring \<Rightarrow> jsstring \<Rightarrow> bool option" where
  "compareVersion actual operator expected =
     (case all_some (map decimal (split_on 0x2E expected)) of
        None \<Rightarrow> None
      | Some components \<Rightarrow> holds operator (compare_components actual components))"

text \<open>
  Notions used to state what \<open>compareVersion\<close> computes: the decimal text of a natural
  number, the dotted text of a sequence of them, and a sequence extended by zeros to a
  given length.
\<close>

fun decimal_text :: "nat \<Rightarrow> jsstring" where
  "decimal_text n =
     (if n < 10 then [code_unit (0x30 + n)]
      else decimal_text (n div 10) @ [code_unit (0x30 + n mod 10)])"

declare decimal_text.simps [simp del]

definition dotted :: "nat list \<Rightarrow> jsstring" where
  "dotted ns = join [0x2E] (map decimal_text ns)"

definition padded :: "nat \<Rightarrow> int list \<Rightarrow> int list" where
  "padded m xs = xs @ replicate (m - length xs) 0"

subsection \<open>\<open>identify\<close> and \<open>extractVersion\<close> (module \<open>./search\<close>)\<close>







section \<open>Sample hosts\<close>

text \<open>
  Concrete hosts on which the theorems below are exercised: two browsers, a comparison
  of versions that knows one query, clocks that know the texts of three instants,
  and tables for the search.
\<close>

definition version_at_least :: "int list \<Rightarrow> jsstring \<Rightarrow> jsstring option \<Rightarrow> error + bool" where
  "version_at_least actual operator expected =
     (if operator = js ''>='' then
        (case expected of
           None \<Rightarrow> Inl TypeError
         | Some e \<Rightarrow> Inr (e = js ''43'' \<and> (case actual of [] \<Rightarrow> False | major # _ \<Rightarrow> 43 \<le> major)))
      else Inr False)"

definition chrome_mac :: host where
  "chrome_mac =
     \<lparr> userAgent = js ''Mozilla/5.0 (Macintosh; Intel Mac OS X 10_12_6) Chrome/62.0.3202.94'',
       navigator_platform = js ''MacIntel'',
       ontouchstart_in_window = False,
       DocumentTouch = None,
       Search_browser = \<lparr> string = js ''Mozilla/5.0 (Macintosh; Intel Mac OS X 10_12_6) Chrome/62.0.3202.94'',
                          subString = js ''Chrome'', identity = js ''Chrome'' \<rparr>,
       Search_platform = \<lparr> string = js ''MacIntel'', subString = js ''Mac'', identity = js ''Mac'' \<rparr>,
       Search_version = (\<lambda>b. [62, 0, 3202, 94]),
       compareVersion_of = version_at_least,
       toLowerCase = ascii_lower \<rparr>"

definition ipad_safari :: host where
  "ipad_safari =
     chrome_mac \<lparr> userAgent := js ''Mozilla/5.0 (iPad; CPU OS 11_0 like Mac OS X) Safari/604.1'',
                  navigator_platform := js ''iPad'',
                  ontouchstart_in_window := True \<rparr>"

definition sample_dates :: "(int \<times> string) list" where
  "sample_dates =
     [(1513853859000, ''Thu, 21 Dec 2017 10:57:39 GMT''),
      (1513940259000, ''Fri, 22 Dec 2017 10:57:39 GMT''),
      (1514026659000, ''Sat, 23 Dec 2017 10:57:39 GMT'')]"

text \<open>
  The offsets of New York in 2018: five hours behind UTC, and four hours from 11 March,
  7:00 UTC, to 4 November, 6:00 UTC. The local hour that the change in March skips is
  read with the offset before it, and so is the hour that the change in November
  repeats.
\<close>

definition new_york_2018 :: "int \<Rightarrow> bool \<Rightarrow> int" where
  "new_york_2018 t isUTC =
     (let t' = (if isUTC then t else t + 14400000)
      in if 1520751600000 \<le> t' \<and> t' < 1541311200000 then - 14400000 else - 18000000)"

definition sample_clock :: clock where
  "sample_clock =
     \<lparr> now = 1513940259000,
       LocalTZA = new_york_2018,
       toUTCString = (\<lambda>d. case d of
                         Invalid_Date \<Rightarrow> js ''Invalid Date''
                       | Date t \<Rightarrow> (case map_of sample_dates t of
                                     None \<Rightarrow> js ''Invalid Date''
                                   | Some s \<Rightarrow> js s)),
       parse_cookie_date = map_of (map (\<lambda>(t, s). (js s, t)) sample_dates) \<rparr>"

text \<open>
  The offsets of Apia around the end of 2011, when Samoa moved across the date line:
  ten hours behind UTC until 30 December, 10:00 UTC, and fourteen hours ahead from
  then on, so that 29 December was followed by 31 December. The local day that was
  skipped is read with the offset before the change. The clock stands at half past
  midnight of 31 December there.
\<close>

definition apia_2011 :: "int \<Rightarrow> bool \<Rightarrow> int" where
  "apia_2011 t isUTC =
     (let t' = (if isUTC then t else t - 50400000)
      in if t' < 1325239200000 then - 36000000 else 50400000)"

definition apia_clock :: clock where
  "apia_clock = sample_clock \<lparr> now := 1325241000000, LocalTZA := apia_2011 \<rparr>"

definition initial :: state where
  "initial = \<lparr> options = no_options, jar = [] \<rparr>"






section \<open>Properties of the browser module\<close>

lemma split_scan_not_Nil: "split_scan in_run piece s \<noteq> []"
  by (induction s arbitrary: in_run piece) auto

lemma split_ws_not_Nil: "split_ws s \<noteq> []"
  by (simp add: split_ws_def split_scan_not_Nil)

lemma element_0: "xs \<noteq> [] \<Longrightarrow> element xs 0 = Some (hd xs)"
  by (cases xs) (simp_all add: element_def)

lemma sample_pieces:
  "split_ws (js ''chrome >= 43'') = [js ''chrome'', js ''>='', js ''43'']"
  "split_ws (js ''chrome'') = [js ''chrome'']"
  "split_ws (js ''explorer < 6'') = [js ''explorer'', js ''<'', js ''6'']"
  by (simp_all add: split_ws_def js_def is_space_def)

lemma sample_named:
  "includes_str (ascii_lower (js ''Chrome'')) (ascii_lower (js ''chrome''))"
  "\<not> includes_str (ascii_lower (js ''Chrome'')) (ascii_lower (js ''explorer''))"
  by (simp_all add: includes_str_def ascii_lower_def js_def)

lemma sample_host:
  "toLowerCase chrome_mac = ascii_lower"
  "identity (currentBrowser chrome_mac) = js ''Chrome''"
  "currentVersion chrome_mac = [62, 0, 3202, 94]"
  "compareVersion_of chrome_mac = version_at_least"
  by (simp_all add: chrome_mac_def currentBrowser_def currentVersion_def)


text \<open>
  C10: \<open>supportsTouchEvents\<close> is true only on a host where \<open>isMobile\<close> or \<open>isTablet\<close>
  is true; on every other host it is \<open>false\<close>, whatever the touch indicators say.
\<close>

theorem supportsTouchEvents_only_mobile_or_tablet:
  "(supportsTouchEvents h = Bool True \<longrightarrow> isMobile h \<or> isTablet h) \<and>
   (\<not> isMobile h \<and> \<not> isTablet h \<longrightarrow> supportsTouchEvents h = Bool False)"
  by (simp add: supportsTouchEvents_def)

theorem supportsTouchEvents_only_mobile_or_tablet_witness:
  "supportsTouchEvents ipad_safari = Bool True \<and> (isMobile ipad_safari \<or> isTablet ipad_safari)"
proof -
  have tablet: "isTablet ipad_safari"
    by (simp add: isTablet_def ipad_safari_def chrome_mac_def test_i_def js_def canonical_def)
  then have touch: "supportsTouchEvents ipad_safari = Bool True"
    by (simp add: supportsTouchEvents_def ipad_safari_def chrome_mac_def)
  from supportsTouchEvents_only_mobile_or_tablet [of ipad_safari] touch
  have "isMobile ipad_safari \<or> isTablet ipad_safari" by (rule_tac mp) (erule conjunct1)
  with touch show ?thesis by (rule_tac conjI)
qed

text \<open>
  C1: \<open>matches\<close> splits the query on white space; the split always has a first
  piece. When the lower-cased identity of the current browser does not contain the
  lower-cased first piece, the result is \<open>false\<close>. When it does and there is no further
  piece, the result is \<open>true\<close>. When it does and there are further pieces, the result
  is the result of \<open>compareVersion\<close> on the current version, the second piece and the
  third piece (\<open>undefined\<close> when the query has only two pieces).
\<close>

theorem matches_by_pieces:
  fixes h :: host and query :: jsstring
  defines "pieces \<equiv> split_ws query"
  defines "named \<equiv> includes_str (toLowerCase h (identity (currentBrowser h)))
                     (toLowerCase h (hd pieces))"
  shows "pieces \<noteq> [] \<and>
         (\<not> named \<longrightarrow> matches h query = Inr False) \<and>
         (named \<and> tl pieces = [] \<longrightarrow> matches h query = Inr True) \<and>
         (named \<and> tl pieces \<noteq> [] \<longrightarrow>
            matches h query =
              compareVersion_of h (currentVersion h) (pieces ! 1) (element pieces 2))"
proof -
  have ne: "pieces \<noteq> []" by (simp add: pieces_def split_ws_not_Nil)
  then have first: "template (element pieces 0) = hd pieces"
    by (simp add: element_0 template_def)
  have short: "length pieces \<le> 1 \<longleftrightarrow> tl pieces = []"
    using ne by (cases pieces) auto
  show ?thesis
    using ne first short
    by (simp add: matches_def Let_def named_def pieces_def [symmetric])
qed

theorem matches_by_pieces_witness:
  "matches chrome_mac (js ''chrome >= 43'') = Inr True \<and>
   matches chrome_mac (js ''chrome'') = Inr True \<and>
   matches chrome_mac (js ''explorer < 6'') = Inr False"
proof -
  have cmp: "version_at_least [62, 0, 3202, 94] (js ''>='') (Some (js ''43'')) = Inr True"
    by (simp add: version_at_least_def)
  have "matches chrome_mac (js ''chrome >= 43'') = Inr True"
    using matches_by_pieces [where h = chrome_mac and query = "js ''chrome >= 43''"] cmp
    by (simp add: sample_pieces sample_host sample_named element_def)
  moreover have "matches chrome_mac (js ''chrome'') = Inr True"
    using matches_by_pieces [where h = chrome_mac and query = "js ''chrome''"]
    by (simp add: sample_pieces sample_host sample_named)
  moreover have "matches chrome_mac (js ''explorer < 6'') = Inr False"
    using matches_by_pieces [where h = chrome_mac and query = "js ''explorer < 6''"]
    by (simp add: sample_pieces sample_host sample_named)
  ultimately show ?thesis by simp
qed





section \<open>Properties of the host functions\<close>

subsection \<open>Decoding what \<open>encodeURIComponent\<close> wrote\<close>

lemma unat_code_unit: "n < 65536 \<Longrightarrow> unat (code_unit n) = n"
  by (simp add: code_unit_def unat_of_nat)

lemma code_unit_unat: "code_unit (unat c) = c"
  by (simp add: code_unit_def)

lemma hex_value_hex_digit: "n < 16 \<Longrightarrow> hex_value (hex_digit n) = Some n"
  by (simp add: hex_value_def hex_digit_def word_le_nat_alt unat_code_unit)

lemma escape_octet_percent:
  "b < 256 \<Longrightarrow> escape_octet (0x25 # hex_digit (b div 16) # hex_digit (b mod 16) # rest) = Some b"
  by (simp add: hex_value_hex_digit)

lemma continuation_percent:
  "\<forall>b\<in>set bs. 0x80 \<le> b \<and> b < 0xC0 \<Longrightarrow> continuation (length bs) (percent bs @ rest) = Some bs"
proof (induction bs)
  case Nil
  then show ?case by (simp add: percent_def)
next
  case (Cons b bs)
  then have b: "b < 256" "b div 0x40 = 2" by auto
  have "percent (b # bs) @ rest = 0x25 # hex_digit (b div 16) # hex_digit (b mod 16) # (percent bs @ rest)"
    by (simp add: percent_def)
  with Cons b show ?case
    by (simp add: escape_octet_percent del: escape_octet.simps)
qed

lemma length_percent: "length (percent bs) = 3 * length bs"
  by (induction bs) (simp_all add: percent_def)

lemma drop_percent: "drop (3 * length bs) (percent bs @ rest) = rest"
  by (simp add: length_percent)

lemma decode_lead:
  assumes "0x80 \<le> a" "a < 256" "leading_ones a = Suc (length bs)"
    and "\<forall>x\<in>set bs. 0x80 \<le> x \<and> x < 0xC0"
    and "utf8_value (a # bs) = Some v"
    and "0 < length bs" "length bs < 4"
  shows "decodeURIComponent (percent (a # bs) @ rest) =
           followed_by (utf16 v) (decodeURIComponent rest)"
proof -
  have a: "\<not> a < 0x80" using assms by auto
  have n: "leading_ones a \<noteq> 1" "\<not> 4 < leading_ones a" "leading_ones a - 1 = length bs"
    using assms(3,6,7) by auto
  have "percent (a # bs) @ rest =
      0x25 # hex_digit (a div 16) # hex_digit (a mod 16) # (percent bs @ rest)"
    by (simp add: percent_def)
  then show ?thesis
    using a n assms(2,5) continuation_percent [OF assms(4), of rest] drop_percent [of bs rest]
    by (simp add: escape_octet_percent del: escape_octet.simps)
qed

lemma digits3: "(v::nat) div 0x1000 * 0x1000 + v div 0x40 mod 0x40 * 0x40 + v mod 0x40 = v"
proof -
  define q where "q = v div 0x40"
  define r where "r = q div 0x40"
  have e1: "v = q * 0x40 + v mod 0x40" by (simp add: q_def)
  have e2: "q = r * 0x40 + q mod 0x40" by (simp add: r_def)
  have e3: "v div 0x1000 = r" using div_mult2_eq [of v "0x40" "0x40"] by (simp add: q_def r_def)
  show ?thesis unfolding e3 q_def [symmetric] using e1 e2 by linarith
qed

lemma digits4:
  "(v::nat) div 0x40000 * 0x40000 + v div 0x1000 mod 0x40 * 0x1000 + v div 0x40 mod 0x40 * 0x40 +
     v mod 0x40 = v"
proof -
  define q where "q = v div 0x40"
  define r where "r = q div 0x40"
  define t where "t = r div 0x40"
  have e1: "v = q * 0x40 + v mod 0x40" by (simp add: q_def)
  have e2: "q = r * 0x40 + q mod 0x40" by (simp add: r_def)
  have e3: "r = t * 0x40 + r mod 0x40" by (simp add: t_def)
  have e4: "v div 0x1000 = r" using div_mult2_eq [of v "0x40" "0x40"] by (simp add: q_def r_def)
  have e5: "v div 0x40000 = t" using div_mult2_eq [of v "0x1000" "0x40"] e4 by (simp add: t_def)
  show ?thesis unfolding e4 e5 q_def [symmetric] using e1 e2 e3 by linarith
qed

lemma decode_percent_utf8:
  assumes "scalar v"
  shows "decodeURIComponent (percent (utf8 v) @ rest) = followed_by (utf16 v) (decodeURIComponent rest)"
proof -
  consider "v < 0x80" | "0x80 \<le> v" "v < 0x800" | "0x800 \<le> v" "v < 0x10000" | "0x10000 \<le> v"
    by linarith
  then show ?thesis
  proof cases
    case 1
    then have "percent (utf8 v) @ rest = 0x25 # hex_digit (v div 16) # hex_digit (v mod 16) # rest"
      by (simp add: utf8_def percent_def)
    with 1 show ?thesis
      by (simp add: escape_octet_percent utf16_def del: escape_octet.simps)
  next
    case 2
    define a where "a = 0xC0 + v div 0x40"
    define b where "b = 0x80 + v mod 0x40"
    have u: "utf8 v = a # [b]" using 2 by (simp add: utf8_def a_def b_def)
    have a: "0x80 \<le> a" "a < 256" "leading_ones a = Suc (length [b])"
      using 2 by (simp_all add: a_def leading_ones_def)
    have b: "\<forall>x\<in>set [b]. 0x80 \<le> x \<and> x < 0xC0" by (simp add: b_def)
    have val: "utf8_value (a # [b]) = Some v"
      using 2 by (simp add: utf8_value_def a_def b_def)
    show ?thesis unfolding u by (rule decode_lead [OF a b val]) simp_all
  next
    case 3
    define a where "a = 0xE0 + v div 0x1000"
    define b where "b = 0x80 + v div 0x40 mod 0x40"
    define c where "c = 0x80 + v mod 0x40"
    have u: "utf8 v = a # [b, c]" using 3 by (simp add: utf8_def a_def b_def c_def)
    have a: "0x80 \<le> a" "a < 256" "leading_ones a = Suc (length [b, c])"
      using 3 by (simp_all add: a_def leading_ones_def)
    have b: "\<forall>x\<in>set [b, c]. 0x80 \<le> x \<and> x < 0xC0" by (simp add: b_def c_def)
    have "(a - 0xE0) * 0x1000 + (b - 0x80) * 0x40 + (c - 0x80) = v"
      using digits3 [of v] by (simp add: a_def b_def c_def)
    then have val: "utf8_value (a # [b, c]) = Some v"
      using 3 assms by (simp add: utf8_value_def scalar_def)
    show ?thesis unfolding u by (rule decode_lead [OF a b val]) simp_all
  next
    case 4
    define a where "a = 0xF0 + v div 0x40000"
    define b where "b = 0x80 + v div 0x1000 mod 0x40"
    define c where "c = 0x80 + v div 0x40 mod 0x40"
    define d where "d = 0x80 + v mod 0x40"
    have u: "utf8 v = a # [b, c, d]" using 4 by (simp add: utf8_def a_def b_def c_def d_def)
    have "v < 8 * 0x40000" using assms by (simp add: scalar_def)
    then have "v div 0x40000 < 8" by (rule less_mult_imp_div_less)
    then have a: "0x80 \<le> a" "a < 256" "leading_ones a = Suc (length [b, c, d])"
      by (simp_all add: a_def leading_ones_def)
    have b: "\<forall>x\<in>set [b, c, d]. 0x80 \<le> x \<and> x < 0xC0" by (simp add: b_def c_def d_def)
    have "(a - 0xF0) * 0x40000 + (b - 0x80) * 0x1000 + (c - 0x80) * 0x40 + (d - 0x80) = v"
      using digits4 [of v] by (simp add: a_def b_def c_def d_def)
    then have val: "utf8_value (a # [b, c, d]) = Some v"
      using 4 assms by (simp add: utf8_value_def scalar_def)
    show ?thesis unfolding u by (rule decode_lead [OF a b val]) simp_all
  qed
qed

lemma decode_unescaped:
  "uriUnescaped c \<Longrightarrow> decodeURIComponent (c # cs) = followed_by [c] (decodeURIComponent cs)"
  by (auto simp: uriUnescaped_def js_def)

lemma decode_encode:
  "encodeURIComponent s = Inr e \<Longrightarrow> decodeURIComponent e = Inr s"
proof (induction s arbitrary: e rule: encodeURIComponent.induct)
  case 1
  then show ?case by simp
next
  case (2 c cs)
  show ?case
  proof (cases "uriUnescaped c")
    case True
    with 2 show ?thesis
      by (auto simp: followed_by_def decode_unescaped simp del: decodeURIComponent.simps
          split: sum.splits)
  next
    case False
    note esc = this
    show ?thesis
    proof (cases "c < 0xD800 \<or> 0xDBFF < c")
      case True
      with esc "2.prems" have ns: "\<not> (0xDC00 \<le> c \<and> c \<le> 0xDFFF)" by (auto split: if_splits)
      with esc True "2.prems" obtain e' where e': "encodeURIComponent cs = Inr e'"
        "e = percent (utf8 (unat c)) @ e'"
        by (auto simp: followed_by_def split: sum.splits)
      have "unat c < 0x10000" using unsigned_less [of c, where ?'a = nat] by simp
      with True ns have "scalar (unat c)"
        by (auto simp: scalar_def word_le_nat_alt word_less_nat_alt)
      moreover have "utf16 (unat c) = [c]"
        using \<open>unat c < 0x10000\<close> by (simp add: utf16_def code_unit_unat)
      moreover have "decodeURIComponent e' = Inr cs"
        using "2.IH"(2) esc ns True e' by simp
      ultimately show ?thesis
        by (simp add: e' decode_percent_utf8 followed_by_def)
    next
      case False
      then have hi: "0xD800 \<le> c" "c \<le> 0xDBFF" by auto
      then have ns: "\<not> (0xDC00 \<le> c \<and> c \<le> 0xDFFF)" by (simp add: word_le_nat_alt)
      from esc False ns "2.prems" obtain d ds where cs: "cs = d # ds"
        by (cases cs) auto
      with esc False ns "2.prems" have lo: "\<not> (d < 0xDC00 \<or> 0xDFFF < d)"
        by (auto split: if_splits)
      define v where "v = (unat c - 0xD800) * 0x400 + (unat d - 0xDC00) + 0x10000"
      from esc False ns lo cs "2.prems" obtain e' where e': "encodeURIComponent ds = Inr e'"
        "e = percent (utf8 v) @ e'"
        by (auto simp: followed_by_def v_def split: sum.splits)
      have c: "0xD800 \<le> unat c" "unat c \<le> 0xDBFF"
        using hi by (simp_all add: word_le_nat_alt)
      have d: "0xDC00 \<le> unat d" "unat d \<le> 0xDFFF"
        using lo by (simp_all add: word_le_nat_alt word_less_nat_alt)
      define x where "x = unat c - 0xD800"
      define y where "y = unat d - 0xDC00"
      have xy: "x < 0x400" "y < 0x400" "v = x * 0x400 + y + 0x10000"
        "unat c = 0xD800 + x" "unat d = 0xDC00 + y"
        using c d by (simp_all add: x_def y_def v_def)
      have "scalar v" using xy(1,2) by (simp add: scalar_def xy(3))
      moreover have "utf16 v = [c, d]"
      proof -
        have "(v - 0x10000) div 0x400 = x" "(v - 0x10000) mod 0x400 = y"
          using xy(2) by (simp_all add: xy(3))
        moreover have "code_unit (0xD800 + x) = c" "code_unit (0xDC00 + y) = d"
          using code_unit_unat [of c] code_unit_unat [of d] by (simp_all only: xy(4,5))
        ultimately show ?thesis
          by (simp add: utf16_def xy(3))
      qed
      moreover have "decodeURIComponent e' = Inr ds"
        using "2.IH"(3) [OF esc ns False cs] lo e' by simp
      ultimately show ?thesis
        by (simp add: e' cs decode_percent_utf8 followed_by_def)
    qed
  qed
qed

subsection \<open>What \<open>encodeURIComponent\<close> writes, and when it raises\<close>

lemma uriUnescaped_ascii: "uriUnescaped c \<Longrightarrow> c < 0x80"
  by (auto simp: uriUnescaped_def js_def word_le_nat_alt word_less_nat_alt)

lemma unat_hex_digit: "n < 16 \<Longrightarrow> unat (hex_digit n) = (if n < 10 then 0x30 + n else 0x37 + n)"
  by (simp add: hex_digit_def unat_code_unit)

lemma hex_digit_unescaped: "n < 16 \<Longrightarrow> uriUnescaped (hex_digit n)"
  by (simp add: uriUnescaped_def word_le_nat_alt unat_hex_digit)

lemma plain_hex_digit: "n < 16 \<Longrightarrow> plain [hex_digit n]"
  by (simp add: plain_def word_unat_eq_iff unat_hex_digit)

lemma octet_digits: "b < 256 \<Longrightarrow> b div 16 < 16 \<and> b mod 16 < (16::nat)"
  by (simp add: less_mult_imp_div_less)

lemma escaped_percent: "\<forall>b\<in>set bs. b < 256 \<Longrightarrow> escaped_text (percent bs)"
  using octet_digits
  by (induction bs) (simp_all add: percent_def escaped_text_def hex_digit_unescaped)

lemma plain_percent: "\<forall>b\<in>set bs. b < 256 \<Longrightarrow> plain (percent bs)"
proof (induction bs)
  case Nil
  then show ?case by (simp add: percent_def plain_def)
next
  case (Cons b bs)
  then have "plain [hex_digit (b div 16)]" "plain [hex_digit (b mod 16)]" "plain (percent bs)"
    using octet_digits [of b] by (simp_all add: plain_hex_digit)
  then show ?case by (simp add: percent_def plain_def)
qed

lemma utf8_octets: "v < 0x200000 \<Longrightarrow> \<forall>b\<in>set (utf8 v). b < 256"
proof -
  assume v: "v < 0x200000"
  have a: "v < 0x800 \<Longrightarrow> v div 0x40 < 0x20" by (rule less_mult_imp_div_less) simp
  have b: "v < 0x10000 \<Longrightarrow> v div 0x1000 < 0x10" by (rule less_mult_imp_div_less) simp
  have c: "v div 0x40000 < 8" using v by (intro less_mult_imp_div_less) simp
  show ?thesis using a b c by (auto simp: utf8_def)
qed



lemma followed_by_Inr: "followed_by xs r = Inr e \<Longrightarrow> \<exists>e'. r = Inr e' \<and> e = xs @ e'"
  by (cases r) (simp_all add: followed_by_def)

lemma encode_ConsE:
  assumes "encodeURIComponent (c # cs) = Inr e"
  obtains (unescaped) e' where "uriUnescaped c" "encodeURIComponent cs = Inr e'" "e = c # e'"
  | (single) e' where "\<not> uriUnescaped c" "c < 0xD800 \<or> 0xDFFF < c"
      "encodeURIComponent cs = Inr e'" "e = percent (utf8 (unat c)) @ e'"
  | (pair) d ds e' where "\<not> uriUnescaped c" "0xD800 \<le> c" "c \<le> 0xDBFF" "cs = d # ds"
      "0xDC00 \<le> d" "d \<le> 0xDFFF" "encodeURIComponent ds = Inr e'"
      "e = percent (utf8 ((unat c - 0xD800) * 0x400 + (unat d - 0xDC00) + 0x10000)) @ e'"
proof -
  consider (a) "uriUnescaped c"
    | (b) "\<not> uriUnescaped c" "0xDC00 \<le> c \<and> c \<le> 0xDFFF"
    | (c) "\<not> uriUnescaped c" "\<not> (0xDC00 \<le> c \<and> c \<le> 0xDFFF)" "c < 0xD800 \<or> 0xDBFF < c"
    | (d) "\<not> uriUnescaped c" "\<not> (0xDC00 \<le> c \<and> c \<le> 0xDFFF)" "\<not> (c < 0xD800 \<or> 0xDBFF < c)"
    by blast
  then show ?thesis
  proof cases
    case a
    with assms have "followed_by [c] (encodeURIComponent cs) = Inr e" by simp
    from followed_by_Inr [OF this] a show ?thesis by (auto intro: unescaped)
  next
    case b
    from assms show ?thesis
      by (simp only: encodeURIComponent.simps b if_False if_True) simp
  next
    case c
    from assms have "followed_by (percent (utf8 (unat c))) (encodeURIComponent cs) = Inr e"
      by (simp only: encodeURIComponent.simps c if_False if_True)
    from followed_by_Inr [OF this] obtain e' where
      e': "encodeURIComponent cs = Inr e'" "e = percent (utf8 (unat c)) @ e'" by blast
    have "c < 0xD800 \<or> 0xDFFF < c"
      using c(2,3) by (auto simp: word_le_nat_alt word_less_nat_alt)
    with c(1) show ?thesis using e' by (rule single)
  next
    case d
    then have hi: "0xD800 \<le> c" "c \<le> 0xDBFF" by auto
    from assms have eq: "(case cs of [] \<Rightarrow> Inl URIError
        | d # ds \<Rightarrow> if d < 0xDC00 \<or> 0xDFFF < d then Inl URIError
            else followed_by
              (percent (utf8 ((unat c - 0xD800) * 0x400 + (unat d - 0xDC00) + 0x10000)))
              (encodeURIComponent ds)) = Inr e"
      by (simp only: encodeURIComponent.simps d if_False if_True)
    then obtain x ds where cs: "cs = x # ds" by (cases cs) simp_all
    show ?thesis
    proof (cases "x < 0xDC00 \<or> 0xDFFF < x")
      case True
      with eq cs show ?thesis by simp
    next
      case False
      with eq cs have "followed_by
              (percent (utf8 ((unat c - 0xD800) * 0x400 + (unat x - 0xDC00) + 0x10000)))
              (encodeURIComponent ds) = Inr e"
        by (simp only: list.case False if_False)
      from followed_by_Inr [OF this] obtain e' where
        e': "encodeURIComponent ds = Inr e'"
        "e = percent (utf8 ((unat c - 0xD800) * 0x400 + (unat x - 0xDC00) + 0x10000)) @ e'"
        by blast
      from False have "0xDC00 \<le> x" "x \<le> 0xDFFF" by auto
      with d(1) hi cs show ?thesis using e' by (rule pair)
    qed
  qed
qed


lemma pair_value:
  fixes c d :: jschar
  assumes "c \<le> 0xDBFF" "d \<le> 0xDFFF"
  shows "(unat c - 0xD800) * 0x400 + (unat d - 0xDC00) + 0x10000 < 0x200000"
proof -
  have "unat c \<le> 0xDBFF" "unat d \<le> 0xDFFF" using assms by (simp_all add: word_le_nat_alt)
  then show ?thesis by simp
qed

lemma unit_value: "unat (c :: jschar) < 0x200000"
  using unsigned_less [of c, where ?'a = nat] by simp

lemma escaped_append: "escaped_text (xs @ ys) \<longleftrightarrow> escaped_text xs \<and> escaped_text ys"
  by (simp add: escaped_text_def)

lemma plain_append: "plain (xs @ ys) \<longleftrightarrow> plain xs \<and> plain ys"
  by (simp add: plain_def)

lemma encode_induct [consumes 1, case_names Nil unescaped single pair]:
  assumes "encodeURIComponent s = Inr e"
    and "P [] []"
    and "\<And>c cs e'. uriUnescaped c \<Longrightarrow> encodeURIComponent cs = Inr e' \<Longrightarrow> P cs e' \<Longrightarrow>
           P (c # cs) (c # e')"
    and "\<And>c cs e'. \<not> uriUnescaped c \<Longrightarrow> c < 0xD800 \<or> 0xDFFF < c \<Longrightarrow>
           encodeURIComponent cs = Inr e' \<Longrightarrow> P cs e' \<Longrightarrow>
           P (c # cs) (percent (utf8 (unat c)) @ e')"
    and "\<And>c d ds e'. \<not> uriUnescaped c \<Longrightarrow> 0xD800 \<le> c \<Longrightarrow> c \<le> 0xDBFF \<Longrightarrow>
           0xDC00 \<le> d \<Longrightarrow> d \<le> 0xDFFF \<Longrightarrow> encodeURIComponent ds = Inr e' \<Longrightarrow> P ds e' \<Longrightarrow>
           P (c # d # ds)
             (percent (utf8 ((unat c - 0xD800) * 0x400 + (unat d - 0xDC00) + 0x10000)) @ e')"
  shows "P s e"
  using assms(1)
proof (induction s arbitrary: e rule: length_induct)
  case (1 s)
  note IH = "1.IH" [rule_format]
  show ?case
  proof (cases s)
    case Nil
    with "1.prems" assms(2) show ?thesis by simp
  next
    case (Cons c cs)
    with "1.prems" have "encodeURIComponent (c # cs) = Inr e" by simp
    then show ?thesis
    proof (cases rule: encode_ConsE)
      case (unescaped e')
      have "P cs e'" by (rule IH [OF _ unescaped(2)]) (simp add: Cons)
      with unescaped show ?thesis unfolding Cons by (simp add: assms(3))
    next
      case (single e')
      have "P cs e'" by (rule IH [OF _ single(3)]) (simp add: Cons)
      with single show ?thesis unfolding Cons by (simp add: assms(4))
    next
      case (pair d ds e')
      have "P ds e'" by (rule IH [OF _ pair(7)]) (simp add: Cons pair(4))
      with pair show ?thesis unfolding Cons by (simp add: assms(5))
    qed
  qed
qed

lemma encode_escaped: "encodeURIComponent s = Inr e \<Longrightarrow> escaped_text e"
proof (induction rule: encode_induct)
  case Nil
  show ?case by (simp add: escaped_text_def)
next
  case (unescaped c cs e')
  then show ?case by (simp add: escaped_text_def)
next
  case (single c cs e')
  have "escaped_text (percent (utf8 (unat c)))"
    by (intro escaped_percent utf8_octets unit_value)
  with single show ?case by (simp add: escaped_append)
next
  case (pair c d ds e')
  have "escaped_text (percent (utf8 ((unat c - 0xD800) * 0x400 + (unat d - 0xDC00) + 0x10000)))"
    using pair by (intro escaped_percent utf8_octets pair_value)
  with pair show ?case by (simp add: escaped_append)
qed

lemma not_unescaped_plain: "\<not> uriUnescaped c \<Longrightarrow> plain [c]"
  by (auto simp: plain_def uriUnescaped_def js_def)

lemma encode_plain: "encodeURIComponent s = Inr e \<Longrightarrow> plain e \<longleftrightarrow> plain s"
proof (induction rule: encode_induct)
  case Nil
  show ?case by simp
next
  case (unescaped c cs e')
  then show ?case by (simp add: plain_def)
next
  case (single c cs e')
  have "plain (percent (utf8 (unat c)))"
    by (intro plain_percent utf8_octets unit_value)
  moreover have "plain (c # cs) \<longleftrightarrow> plain cs"
    using not_unescaped_plain [OF single(1)] by (simp add: plain_def)
  ultimately show ?case using single by (simp add: plain_append)
next
  case (pair c d ds e')
  have "plain (percent (utf8 ((unat c - 0xD800) * 0x400 + (unat d - 0xDC00) + 0x10000)))"
    using pair by (intro plain_percent utf8_octets pair_value)
  moreover have "plain [d]" using pair(4) by (auto simp: plain_def word_le_nat_alt)
  then have "plain (c # d # ds) \<longleftrightarrow> plain ds"
    using not_unescaped_plain [OF pair(1)] by (simp add: plain_def)
  ultimately show ?case using pair by (simp add: plain_append)
qed

lemma percent_not_Nil: "bs \<noteq> [] \<Longrightarrow> percent bs \<noteq> []"
  by (cases bs) (simp_all add: percent_def)

lemma utf8_not_Nil: "utf8 v \<noteq> []"
  by (simp add: utf8_def)

lemma encode_Nil: "encodeURIComponent s = Inr e \<Longrightarrow> e = [] \<longleftrightarrow> s = []"
  by (induction rule: encode_induct) (simp_all add: percent_not_Nil utf8_not_Nil)

lemma unescaped_not_surrogate:
  "uriUnescaped c \<Longrightarrow> \<not> (0xDC00 \<le> c \<and> c \<le> 0xDFFF) \<and> (c < 0xD800 \<or> 0xDBFF < c)"
  using uriUnescaped_ascii [of c] by (auto simp: word_le_nat_alt word_less_nat_alt)

lemma followed_by_Inl: "followed_by xs r = Inl x \<Longrightarrow> r = Inl x"
  by (cases r) (simp_all add: followed_by_def)

lemma encode_error: "encodeURIComponent s = Inl x \<Longrightarrow> x = URIError"
proof (induction s rule: length_induct)
  case (1 s)
  note IH = "1.IH" [rule_format]
  show ?case
  proof (cases s)
    case Nil
    with "1.prems" show ?thesis by simp
  next
    case (Cons c cs)
    with "1.prems" have eq: "encodeURIComponent (c # cs) = Inl x" by simp
    consider (a) "uriUnescaped c"
      | (b) "\<not> uriUnescaped c" "0xDC00 \<le> c \<and> c \<le> 0xDFFF"
      | (c) "\<not> uriUnescaped c" "\<not> (0xDC00 \<le> c \<and> c \<le> 0xDFFF)" "c < 0xD800 \<or> 0xDBFF < c"
      | (d) "\<not> uriUnescaped c" "\<not> (0xDC00 \<le> c \<and> c \<le> 0xDFFF)" "\<not> (c < 0xD800 \<or> 0xDBFF < c)"
      by blast
    then show ?thesis
    proof cases
      case a
      with eq have "followed_by [c] (encodeURIComponent cs) = Inl x" by simp
      from followed_by_Inl [OF this] show ?thesis by (rule IH [rotated]) (simp add: Cons)
    next
      case b
      from eq show ?thesis
        by (simp only: encodeURIComponent.simps b if_False if_True) simp
    next
      case c
      from eq have "followed_by (percent (utf8 (unat c))) (encodeURIComponent cs) = Inl x"
        by (simp only: encodeURIComponent.simps c if_False if_True)
      from followed_by_Inl [OF this] show ?thesis by (rule IH [rotated]) (simp add: Cons)
    next
      case d
      from eq have eq: "(case cs of [] \<Rightarrow> Inl URIError
          | d # ds \<Rightarrow> if d < 0xDC00 \<or> 0xDFFF < d then Inl URIError
              else followed_by
                (percent (utf8 ((unat c - 0xD800) * 0x400 + (unat d - 0xDC00) + 0x10000)))
                (encodeURIComponent ds)) = Inl x"
        by (simp only: encodeURIComponent.simps d if_False if_True)
      show ?thesis
      proof (cases cs)
        case Nil
        with eq show ?thesis by simp
      next
        case (Cons y ds)
        note cs = this
        show ?thesis
        proof (cases "y < 0xDC00 \<or> 0xDFFF < y")
          case True
          with eq cs show ?thesis by simp
        next
          case False
          with eq cs have "followed_by
                (percent (utf8 ((unat c - 0xD800) * 0x400 + (unat y - 0xDC00) + 0x10000)))
                (encodeURIComponent ds) = Inl x"
            by (simp only: list.case False if_False)
          from followed_by_Inl [OF this] show ?thesis
            by (rule IH [rotated]) (simp add: \<open>s = c # cs\<close> cs)
        qed
      qed
    qed
  qed
qed

lemma well_formed_encodes: "encodeURIComponent s = Inr e \<Longrightarrow> well_formed s"
proof (induction rule: encode_induct)
  case Nil
  show ?case by simp
next
  case (unescaped c cs e')
  with unescaped_not_surrogate [OF unescaped(1)] show ?case by simp
next
  case (single c cs e')
  then have "\<not> (0xDC00 \<le> c \<and> c \<le> 0xDFFF)" "c < 0xD800 \<or> 0xDBFF < c"
    by (auto simp: word_le_nat_alt word_less_nat_alt)
  with single show ?case by simp
next
  case (pair c d ds e')
  then have "\<not> (0xDC00 \<le> c \<and> c \<le> 0xDFFF)" "\<not> (c < 0xD800 \<or> 0xDBFF < c)"
    by (auto simp: word_le_nat_alt word_less_nat_alt)
  with pair show ?case by simp
qed

lemma encodes_well_formed: "well_formed s \<Longrightarrow> \<exists>e. encodeURIComponent s = Inr e"
proof (induction s rule: length_induct)
  case (1 s)
  note IH = "1.IH" [rule_format]
  show ?case
  proof (cases s)
    case Nil
    then show ?thesis by simp
  next
    case (Cons c cs)
    with "1.prems" have wf: "well_formed (c # cs)" by simp
    then have low: "\<not> (0xDC00 \<le> c \<and> c \<le> 0xDFFF)"
      by (cases "0xDC00 \<le> c \<and> c \<le> 0xDFFF") simp_all
    show ?thesis
    proof (cases "c < 0xD800 \<or> 0xDBFF < c")
      case True
      with wf low have "well_formed cs" by simp
      from IH [OF _ this] Cons obtain e' where e': "encodeURIComponent cs = Inr e'" by auto
      show ?thesis unfolding Cons
        by (simp only: encodeURIComponent.simps low True if_True if_False e' followed_by_def
            sum.case split: if_splits) simp
    next
      case False
      with wf low have c: "(case cs of [] \<Rightarrow> False
          | d # ds \<Rightarrow> 0xDC00 \<le> d \<and> d \<le> 0xDFFF \<and> well_formed ds)" by simp
      then obtain d ds where cs: "cs = d # ds" by (cases cs) simp_all
      with c have d: "0xDC00 \<le> d" "d \<le> 0xDFFF" "well_formed ds" by simp_all
      from IH [OF _ d(3)] Cons cs obtain e' where e': "encodeURIComponent ds = Inr e'" by auto
      have ne: "\<not> (d < 0xDC00 \<or> 0xDFFF < d)" using d by auto
      have esc: "\<not> uriUnescaped c" using unescaped_not_surrogate [of c] False by blast
      show ?thesis unfolding Cons cs
        by (simp only: encodeURIComponent.simps esc low False ne if_False e' followed_by_def
            sum.case list.case) simp
    qed
  qed
qed

lemma encode_well_formed: "(\<exists>e. encodeURIComponent s = Inr e) \<longleftrightarrow> well_formed s"
  using well_formed_encodes encodes_well_formed by blast

lemma encode_raises: "encodeURIComponent s = Inl URIError \<longleftrightarrow> \<not> well_formed s"
proof -
  have "encodeURIComponent s = Inl URIError \<longleftrightarrow> \<not> (\<exists>e. encodeURIComponent s = Inr e)"
  proof (cases "encodeURIComponent s")
    case (Inl x)
    with encode_error [OF Inl] show ?thesis by simp
  next
    case (Inr e)
    then show ?thesis by simp
  qed
  then show ?thesis by (simp add: encode_well_formed)
qed

subsection \<open>The pattern of a plain key finds the first cookie of that name\<close>

lemma parse_key_plain:
  "plain k \<Longrightarrow> parse_key g [] terms k = Inr (g, rev (map Unit k) @ terms)"
  by (induction k arbitrary: terms) (simp_all add: plain_def)

lemma cookie_pattern_plain: "plain k \<Longrightarrow> cookie_pattern k = Inr (key_pattern k)"
  by (simp add: cookie_pattern_def parse_key_plain key_pattern_def)

lemma run_sequence_Nil: "run (sequence []) x = [x]"
  by (cases x) (simp add: sequence_def)

lemma run_sequence_Cons: "run (sequence (p # ps)) x = concat (map (run (sequence ps)) (run p x))"
  by (cases x) (simp add: sequence_def)

lemma run_units:
  "run (sequence (map Unit k @ ps)) (b, k @ t, c) = run (sequence ps) (b \<and> k = [], t, c)"
proof (induction k arbitrary: b)
  case Nil
  show ?case by simp
next
  case (Cons u k)
  have "run (sequence (map Unit (u # k) @ ps)) (b, (u # k) @ t, c) =
      run (sequence (map Unit k @ ps)) (False, k @ t, c)"
    by (simp add: run_sequence_Cons)
  also have "\<dots> = run (sequence ps) (False, t, c)"
    using Cons [of False] by simp
  finally show ?case by simp
qed

lemma run_units_fail:
  "\<not> (\<exists>t. s = k @ t) \<Longrightarrow> run (sequence (map Unit k @ ps)) (b, s, c) = []"
proof (induction k arbitrary: b s)
  case Nil
  then show ?case by simp
next
  case (Cons u k)
  show ?case
  proof (cases s)
    case Nil
    then show ?thesis by (simp add: run_sequence_Cons)
  next
    case (Cons x s')
    show ?thesis
    proof (cases "x = u")
      case True
      with Cons.prems Cons have "\<not> (\<exists>t. s' = k @ t)" by simp
      from Cons.IH [OF this] show ?thesis using Cons True by (simp add: run_sequence_Cons)
    next
      case False
      then show ?thesis using Cons by (simp add: run_sequence_Cons)
    qed
  qed
qed

lemma clear_Nil: "clear [] c = c"
  by (simp add: clear_def)

lemma run_star_class:
  "\<exists>others. run (Star Not_semicolon) (b, s, c) =
      (b \<and> takeWhile (\<lambda>x. x \<noteq> 0x3B) s = [], dropWhile (\<lambda>x. x \<noteq> 0x3B) s, c) # others"
proof (induction s arbitrary: b)
  case Nil
  show ?case by (simp add: clear_Nil)
next
  case (Cons x s)
  show ?case
  proof (cases "x = 0x3B")
    case True
    then show ?thesis by (simp add: clear_Nil)
  next
    case False
    from Cons [of False] obtain others where
      "run (Star Not_semicolon) (False, s, c) =
         (False \<and> takeWhile (\<lambda>x. x \<noteq> 0x3B) s = [], dropWhile (\<lambda>x. x \<noteq> 0x3B) s, c) # others"
      by blast
    with False show ?thesis by (simp add: clear_Nil)
  qed
qed

lemma run_key_pattern:
  "run (key_pattern k) x = concat (map (run (value_pattern k)) (run Start_or_separator x))"
  by (simp add: key_pattern_def value_pattern_def run_sequence_Cons)

lemma take_length_dropWhile: "take (length s - length (dropWhile P s)) s = takeWhile P s"
proof -
  have "length (takeWhile P s) + length (dropWhile P s) = length s"
    by (simp add: length_append [symmetric] del: length_append)
  then have "length s - length (dropWhile P s) = length (takeWhile P s)" by linarith
  then show ?thesis by (simp add: takeWhile_eq_take [symmetric])
qed

lemma run_group_class:
  "\<exists>b' others. run (Group 1 (Star Not_semicolon)) (b, s, c) =
      (b', dropWhile (\<lambda>x. x \<noteq> 0x3B) s, c(1 \<mapsto> takeWhile (\<lambda>x. x \<noteq> 0x3B) s)) # others"
proof -
  from run_star_class [of b s c] obtain others where
    "run (Star Not_semicolon) (b, s, c) =
      (b \<and> takeWhile (\<lambda>x. x \<noteq> 0x3B) s = [], dropWhile (\<lambda>x. x \<noteq> 0x3B) s, c) # others"
    by blast
  then show ?thesis by (simp add: take_length_dropWhile)
qed

lemma concat_singletons: "concat (map (\<lambda>x. [x]) xs) = xs"
  by (induction xs) simp_all

lemma run_value:
  "\<exists>b' others. run (sequence [Unit 0x3D, Group 1 (Star Not_semicolon)]) (b, 0x3D # s, c) =
      (b', dropWhile (\<lambda>x. x \<noteq> 0x3B) s, c(1 \<mapsto> takeWhile (\<lambda>x. x \<noteq> 0x3B) s)) # others"
proof -
  have "run (sequence [Unit 0x3D, Group 1 (Star Not_semicolon)]) (b, 0x3D # s, c) =
      run (Group 1 (Star Not_semicolon)) (False, s, c)"
    by (simp add: run_sequence_Cons run_sequence_Nil [abs_def] concat_singletons
        del: run.simps(7,8))
  with run_group_class [of False s c] show ?thesis by simp
qed

lemma run_value_fail:
  "\<not> (\<exists>t. s = 0x3D # t) \<Longrightarrow>
     run (sequence [Unit 0x3D, Group 1 (Star Not_semicolon)]) (b, s, c) = []"
  by (cases s) (simp_all add: run_sequence_Cons)

lemma run_value_pattern:
  "\<exists>b' others. run (value_pattern k) (b, k @ 0x3D # t, c) =
      (b', dropWhile (\<lambda>x. x \<noteq> 0x3B) t, c(1 \<mapsto> takeWhile (\<lambda>x. x \<noteq> 0x3B) t)) # others"
  unfolding value_pattern_def run_units by (rule run_value)

lemma run_value_pattern_fail:
  assumes "\<not> (\<exists>t. s = k @ 0x3D # t)"
  shows "run (value_pattern k) (b, s, c) = []"
proof (cases "\<exists>t. s = k @ t")
  case True
  then obtain t where s: "s = k @ t" by blast
  with assms have "\<not> (\<exists>t'. t = 0x3D # t')" by auto
  then show ?thesis unfolding value_pattern_def s run_units by (rule run_value_fail)
next
  case False
  then show ?thesis unfolding value_pattern_def by (rule run_units_fail)
qed

lemma takeWhile_upto:
  "a \<notin> set k \<Longrightarrow> takeWhile (\<lambda>x. x \<noteq> a) (k @ a # t) = k"
  by (induction k) auto

lemma same_name:
  assumes "a \<notin> set k" "a \<notin> set n" "k @ a # t = n @ a # u"
  shows "k = n \<and> t = u"
proof -
  have "takeWhile (\<lambda>x. x \<noteq> a) (k @ a # t) = takeWhile (\<lambda>x. x \<noteq> a) (n @ a # u)"
    using assms(3) by simp
  then have "k = n" using assms(1,2) by (simp add: takeWhile_upto)
  with assms(3) show ?thesis by simp
qed

lemma join_entries:
  "join [0x3B, 0x20] (x # xs) = x @ concat (map (\<lambda>y. 0x3B # 0x20 # y) xs)"
  by (induction xs arbitrary: x) simp_all

lemma read_cookie_Nil: "read_cookie [] = []"
  by (simp add: read_cookie_def)

lemma read_cookie_Cons: "read_cookie (e # es) = entry_text e @ tail_text es"
proof -
  have sep: "js ''; '' = [0x3B, 0x20]" and eq: "js ''='' = [0x3D]" by (simp_all add: js_def)
  have entry: "(\<lambda>(n, v). n @ js ''='' @ v) = entry_text"
    by (auto simp: entry_text_def eq)
  show ?thesis
    unfolding read_cookie_def sep entry list.map join_entries tail_text_def
    by (simp add: comp_def)
qed

lemma start_fails:
  "x \<noteq> 0x3B \<Longrightarrow> run (key_pattern k) (False, x # s, c) = []"
  by (cases s) (simp_all add: run_key_pattern)

lemma search_skip:
  "0x3B \<notin> set e \<Longrightarrow> search (key_pattern k) False (e @ rest) = search (key_pattern k) False rest"
proof (induction e)
  case Nil
  show ?case by simp
next
  case (Cons x e)
  then have "run (key_pattern k) (False, x # e @ rest, \<lambda>i. None) = []"
    by (intro start_fails) auto
  then have "search (key_pattern k) False ((x # e) @ rest) = search (key_pattern k) False (e @ rest)"
    by (subst search.simps) simp
  with Cons show ?case by simp
qed

lemma tail_text_start: "tail_text es = [] \<or> (\<exists>t. tail_text es = 0x3B # t)"
  by (cases es) (simp_all add: tail_text_def)

lemma takeWhile_value:
  "0x3B \<notin> set v \<Longrightarrow> takeWhile (\<lambda>x. x \<noteq> 0x3B) (v @ tail_text es) = v"
  using tail_text_start [of es] by (auto simp: takeWhile_upto) 

lemma entry_test:
  assumes "0x3D \<notin> set k" "0x3D \<notin> set n" "0x3B \<notin> set v"
  shows "run (value_pattern k) (b, entry_text (n, v) @ tail_text es, c) =
           (if n = k
            then run (value_pattern k) (b, k @ 0x3D # v @ tail_text es, c)
            else [])"
proof (cases "n = k")
  case True
  then show ?thesis by (simp add: entry_text_def)
next
  case False
  have "\<not> (\<exists>t. entry_text (n, v) @ tail_text es = k @ 0x3D # t)"
  proof
    assume "\<exists>t. entry_text (n, v) @ tail_text es = k @ 0x3D # t"
    then obtain t where "k @ 0x3D # t = n @ 0x3D # (v @ tail_text es)"
      by (auto simp: entry_text_def)
    from same_name [OF assms(1,2) this] False show False by simp
  qed
  from run_value_pattern_fail [OF this] False show ?thesis by simp
qed

lemma entry_found:
  assumes "0x3B \<notin> set v"
  shows "\<exists>b' rest others. run (value_pattern k) (b, k @ 0x3D # v @ tail_text es, c) =
           (b', rest, c(1 \<mapsto> v)) # others"
  using run_value_pattern [of k b "v @ tail_text es" c] takeWhile_value [OF assms, of es]
  by auto

lemma search_tail:
  assumes "0x3D \<notin> set k"
  shows "well_formed_jar es \<Longrightarrow>
    captures_at (search (key_pattern k) False (tail_text es)) = found (map_of es k)"
proof (induction es)
  case Nil
  show ?case
    by (simp add: tail_text_def run_key_pattern captures_at_def found_def)
next
  case (Cons e es)
  obtain n v where e: "e = (n, v)" by (cases e)
  with Cons.prems have wf: "n \<noteq> []" "0x3B \<notin> set n" "0x3D \<notin> set n" "0x3B \<notin> set v"
    "well_formed_jar es"
    by (simp_all add: well_formed_jar_def)
  have shape: "tail_text (e # es) = 0x3B # 0x20 # (entry_text (n, v) @ tail_text es)"
    by (simp add: tail_text_def e)
  have start: "run (key_pattern k) (False, tail_text (e # es), \<lambda>i. None) =
      run (value_pattern k) (False, entry_text (n, v) @ tail_text es, \<lambda>i. None)"
    by (simp add: shape run_key_pattern)
  show ?case
  proof (cases "n = k")
    case True
    from entry_found [OF wf(4), of k False es "\<lambda>i. None"] obtain b' rest others where
      "run (value_pattern k) (False, k @ 0x3D # v @ tail_text es, \<lambda>i. None) =
         (b', rest, (\<lambda>i. None)(1 \<mapsto> v)) # others" by blast
    moreover have "run (key_pattern k) (False, tail_text (e # es), \<lambda>i. None) =
        run (value_pattern k) (False, k @ 0x3D # v @ tail_text es, \<lambda>i. None)"
      using start True by (simp add: entry_text_def)
    ultimately have "run (key_pattern k) (False, tail_text (e # es), \<lambda>i. None) =
        (b', rest, (\<lambda>i. None)(1 \<mapsto> v)) # others" by simp
    then have "search (key_pattern k) False (tail_text (e # es)) =
        Some (b', rest, (\<lambda>i. None)(1 \<mapsto> v))"
      by (subst search.simps) simp
    then show ?thesis by (simp add: captures_at_def found_def e True)
  next
    case False
    with start have none: "run (key_pattern k) (False, tail_text (e # es), \<lambda>i. None) = []"
      by (simp add: entry_test [OF assms wf(3,4)])
    have "search (key_pattern k) False (tail_text (e # es)) =
        search (key_pattern k) False (0x20 # (entry_text (n, v) @ tail_text es))"
      by (subst search.simps) (simp add: none, simp add: shape)
    also have "\<dots> = search (key_pattern k) False (tail_text es)"
      using search_skip [of "0x20 # entry_text (n, v)" k "tail_text es"] wf
      by (simp add: entry_text_def)
    finally show ?thesis using Cons.IH [OF wf(5)] False by (simp add: e)
  qed
qed

lemma match_read:
  assumes "0x3D \<notin> set k" "well_formed_jar cookies"
  shows "match_captures (key_pattern k) (read_cookie cookies) = found (map_of cookies k)"
proof (cases cookies)
  case Nil
  have "run (value_pattern k) (True, [], \<lambda>i. None) = []"
    by (rule run_value_pattern_fail) simp
  then have "search (key_pattern k) True [] = None"
    by (subst search.simps) (simp add: run_key_pattern)
  then show ?thesis by (simp add: Nil read_cookie_Nil match_captures_def found_def)
next
  case (Cons e es)
  obtain n v where e: "e = (n, v)" by (cases e)
  with Cons assms(2) have wf: "n \<noteq> []" "0x3B \<notin> set n" "0x3D \<notin> set n" "0x3B \<notin> set v"
    "well_formed_jar es"
    by (simp_all add: well_formed_jar_def)
  then obtain x n' where n: "n = x # n'" "x \<noteq> 0x3B" by (cases n) auto
  define s where "s = entry_text (n, v) @ tail_text es"
  have s: "s = x # (n' @ 0x3D # v) @ tail_text es" by (simp add: s_def entry_text_def n)
  have start: "run (key_pattern k) (True, s, \<lambda>i. None) = run (value_pattern k) (True, s, \<lambda>i. None)"
    using n(2) by (cases "(n' @ 0x3D # v) @ tail_text es") (simp_all add: run_key_pattern s)
  have captures: "captures_at (search (key_pattern k) True s) = found (map_of cookies k)"
  proof (cases "n = k")
    case True
    from entry_found [OF wf(4), of k True es "\<lambda>i. None"] obtain b' rest others where
      "run (value_pattern k) (True, k @ 0x3D # v @ tail_text es, \<lambda>i. None) =
         (b', rest, (\<lambda>i. None)(1 \<mapsto> v)) # others" by blast
    moreover have "s = k @ 0x3D # v @ tail_text es" by (simp add: s_def entry_text_def True)
    ultimately have "run (key_pattern k) (True, s, \<lambda>i. None) =
        (b', rest, (\<lambda>i. None)(1 \<mapsto> v)) # others" using start by simp
    then have "search (key_pattern k) True s = Some (b', rest, (\<lambda>i. None)(1 \<mapsto> v))"
      by (subst search.simps) simp
    then show ?thesis by (simp add: captures_at_def found_def Cons e True)
  next
    case False
    have none: "run (key_pattern k) (True, s, \<lambda>i. None) = []"
      using start False by (simp add: s_def entry_test [OF assms(1) wf(3,4)])
    have "search (key_pattern k) True s =
        search (key_pattern k) False ((n' @ 0x3D # v) @ tail_text es)"
      by (subst search.simps) (simp add: none, simp add: s)
    also have "\<dots> = search (key_pattern k) False (tail_text es)"
      using wf(2,4) by (intro search_skip) (simp add: n)
    finally show ?thesis
      using search_tail [OF assms(1) wf(5)] False by (simp add: Cons e)
  qed
  then show ?thesis
    by (simp add: match_captures_def captures_at_def Cons read_cookie_Cons s_def e)
qed

lemma read_cookie_empty: "read_cookie cookies = [] \<longleftrightarrow> cookies = []"
  by (cases cookies) (simp_all add: read_cookie_Nil read_cookie_Cons entry_text_def)

lemma escaped_units:
  "escaped_text e \<Longrightarrow> 0x3B \<notin> set e \<and> 0x3D \<notin> set e \<and> 0x20 \<notin> set e \<and> 0x9 \<notin> set e"
  by (auto simp: escaped_text_def list_all_iff uriUnescaped_def js_def)

lemma get_cookie_plain:
  assumes "well_formed_jar (jar st)" "encodeURIComponent k = Inr safeKey" "plain k"
  shows "get_cookie st k d r =
           (case map_of (jar st) safeKey of
              None \<Rightarrow> Inr (fallback d)
            | Some v \<Rightarrow>
                if truthy r then Inr (Text v)
                else (case decodeURIComponent v of Inl e \<Rightarrow> Inl e | Inr t \<Rightarrow> Inr (Text t)))"
proof -
  have "plain safeKey" using encode_plain [OF assms(2)] assms(3) by simp
  then have pattern: "cookie_pattern safeKey = Inr (key_pattern safeKey)"
    by (rule cookie_pattern_plain)
  have "0x3D \<notin> set safeKey" using escaped_units [OF encode_escaped [OF assms(2)]] by simp
  from match_read [OF this assms(1)]
  have m: "match_captures (key_pattern safeKey) (read_cookie (jar st)) =
      found (map_of (jar st) safeKey)" .
  show ?thesis
  proof (cases "jar st = []")
    case True
    then show ?thesis by (simp add: get_cookie_def read_cookie_Nil)
  next
    case False
    then show ?thesis
      by (simp add: get_cookie_def read_cookie_empty assms(2) pattern m found_def template_def
          split: option.splits)
  qed
qed

lemma dropWhile_none: "\<forall>x\<in>set s. \<not> P x \<Longrightarrow> dropWhile P s = s"
  by (cases s) simp_all

lemma trim_id: "0x20 \<notin> set s \<Longrightarrow> 0x9 \<notin> set s \<Longrightarrow> trim s = s"
proof -
  assume a: "0x20 \<notin> set s" "0x9 \<notin> set s"
  then have "\<forall>x\<in>set s. \<not> (x = 0x20 \<or> x = 0x9)" by auto
  moreover from this have "\<forall>x\<in>set (rev s). \<not> (x = 0x20 \<or> x = 0x9)" by simp
  ultimately show ?thesis by (simp add: trim_def dropWhile_none)
qed

lemma set_dropWhile_subset: "set (dropWhile P xs) \<subseteq> set xs"
  by (auto dest: set_dropWhileD)

lemma set_trim: "set (trim s) \<subseteq> set s"
proof -
  have "set (dropWhile P (rev (dropWhile P s))) \<subseteq> set s" for P :: "jschar \<Rightarrow> bool"
    using set_dropWhile_subset [of P "rev (dropWhile P s)"] set_dropWhile_subset [of P s]
    by auto
  then show ?thesis by (simp add: trim_def Let_def)
qed

lemma before_none: "a \<notin> set s \<Longrightarrow> before a s = s"
  unfolding before_def by (induction s) auto

lemma after_none: "a \<notin> set s \<Longrightarrow> after a s = []"
  unfolding after_def by (induction s) auto

lemma before_upto: "a \<notin> set k \<Longrightarrow> before a (k @ a # t) = k"
  unfolding before_def by (induction k) auto

lemma after_upto: "a \<notin> set k \<Longrightarrow> after a (k @ a # t) = t"
  unfolding after_def by (induction k) auto

lemma not_in_before: "a \<notin> set (before a s)"
  unfolding before_def by (induction s) auto

lemma set_before: "set (before a s) \<subseteq> set s"
  unfolding before_def by (auto dest: set_takeWhileD)

lemma set_after: "set (after a s) \<subseteq> set s"
  unfolding after_def by (auto dest: in_set_dropD set_dropWhileD)

lemma map_of_store: "map_of (store n v cookies) m = (if m = n then Some v else map_of cookies m)"
  by (induction cookies) auto

lemma well_formed_store:
  "well_formed_jar cookies \<Longrightarrow> n \<noteq> [] \<Longrightarrow> 0x3B \<notin> set n \<Longrightarrow> 0x3D \<notin> set n \<Longrightarrow> 0x3B \<notin> set v \<Longrightarrow>
     well_formed_jar (store n v cookies)"
  by (induction cookies) (auto simp: well_formed_jar_def)

lemma well_formed_filter:
  "well_formed_jar cookies \<Longrightarrow> well_formed_jar (filter P cookies)"
  by (induction cookies) (auto simp: well_formed_jar_def)

lemma map_of_removed: "map_of (filter (\<lambda>(m, w). m \<noteq> n) cookies) n = None"
  by (induction cookies) auto

lemma write_well_formed:
  assumes "well_formed_jar cookies"
  shows "well_formed_jar (write_cookie h s cookies)"
proof -
  define pair where "pair = before 0x3B s"
  define name where "name = trim (before 0x3D pair)"
  define content where "content = trim (after 0x3D pair)"
  have "0x3B \<notin> set pair" unfolding pair_def by (rule not_in_before)
  then have "0x3B \<notin> set name" "0x3B \<notin> set content"
    using set_trim set_before set_after unfolding name_def content_def by fast+
  moreover have "0x3D \<notin> set name"
    using set_trim not_in_before unfolding name_def by fast
  ultimately have "name \<noteq> [] \<Longrightarrow> well_formed_jar (store name content cookies)"
    using assms by (intro well_formed_store)
  then show ?thesis
    using well_formed_filter [OF assms] assms
    by (simp add: write_cookie_def Let_def pair_def [symmetric] name_def [symmetric]
        content_def [symmetric] split: option.splits)
qed

lemma no_expiry: "expiry_time h [[]] None = None"
  by (simp add: before_def trim_def ascii_lower_def js_def)

lemma write_pair:
  assumes "escaped_text k" "k \<noteq> []" "escaped_text v"
  shows "write_cookie h (k @ 0x3D # v) cookies = store k v cookies"
proof -
  note k = escaped_units [OF assms(1)] and v = escaped_units [OF assms(3)]
  have s: "0x3B \<notin> set (k @ 0x3D # v)" using k v by simp
  have "before 0x3B (k @ 0x3D # v) = k @ 0x3D # v" "after 0x3B (k @ 0x3D # v) = []"
    using s by (simp_all add: before_none after_none del: set_append)
  moreover have "trim (before 0x3D (k @ 0x3D # v)) = k" "trim (after 0x3D (k @ 0x3D # v)) = v"
    using k v by (simp_all add: before_upto after_upto trim_id)
  ultimately show ?thesis
    using assms(2) by (simp add: write_cookie_def Let_def no_expiry del: expiry_time.simps)
qed

lemma well_formed_jar_Nil: "well_formed_jar []"
  by (simp add: well_formed_jar_def)

lemma set_cookie_well_formed:
  "well_formed_jar (jar st) \<Longrightarrow> set_cookie h st k v opts = Inr st' \<Longrightarrow> well_formed_jar (jar st')"
  by (auto simp: set_cookie_def write_well_formed split: sum.splits)

section \<open>Properties of the cookie module\<close>

lemma assign_no_options: "assign no_options opts = opts" "assign opts no_options = opts"
  by (simp_all add: assign_def no_options_def override_def split: option.splits)

lemma month_range: "0 \<le> MonthFromTime t \<and> MonthFromTime t < 12"
  by (simp add: MonthFromTime_def Let_def)

lemma month_div_mod: "MonthFromTime t div 12 = 0" "MonthFromTime t mod 12 = MonthFromTime t"
  using month_range [of t] by simp_all

lemma MakeDay_DateFromTime:
  "MakeDay (YearFromTime l) (MonthFromTime l) (DateFromTime l + n) = Day l + n"
  unfolding MakeDay_def Let_def month_div_mod DateFromTime_def DayWithinYear_def InLeapYear_def
  by simp

lemma MakeDate_Day: "MakeDate (Day l + n) (TimeWithinDay l) = l + n * msPerDay"
  unfolding MakeDate_def Day_def TimeWithinDay_def
  by (simp add: algebra_simps)

lemma expiry_in_days_local:
  "expiry_in_days h n = time_clip (UTC h (LocalTime h (now h) + n * msPerDay))"
  unfolding expiry_in_days_def setDate_def getDate_def Let_def MakeDay_DateFromTime MakeDate_Day
  by (rule refl)

lemma set_opts_days:
  "days (set_opts h this v call_options) =
     (if v = None then Some (Integer (- 1))
      else (case days call_options of None \<Rightarrow> days this | Some d \<Rightarrow> Some d))"
  by (simp add: set_opts_def Let_def assign_def override_def
      split: option.splits days_value.splits)

lemma set_opts_expires:
  "expires (set_opts h this v call_options) =
     (case days (set_opts h this v call_options) of
        Some (Integer m) \<Rightarrow> Some (expiry_in_days h m)
      | _ \<Rightarrow> (case expires call_options of None \<Rightarrow> expires this | Some e \<Rightarrow> Some e))"
  by (simp add: set_opts_def Let_def assign_def override_def
      split: option.splits days_value.splits)

text \<open>
  C7, as amended: when the value is \<open>null\<close>, \<open>set\<close> sets \<open>days\<close> to \<open>-1\<close>; otherwise
  the \<open>days\<close> in force are those of the call and, when the call has none, the
  configured ones. Whenever the \<open>days\<close> in force are an integer, \<open>expires\<close> is the date
  that \<open>setDate\<close> gives for the day of the month of now plus \<open>days\<close>, and otherwise it
  is the \<open>expires\<close> option in force. That date is the instant whose local time is the
  local time of now moved by \<open>days\<close> whole days, invalid when out of the range of time
  values; it is now plus \<open>days\<close> times 24 hours when the offset of the time zone at
  that local time is the offset at now. For \<open>days = -1\<close> it lies before now exactly
  when the offset at now exceeds the offset at the local time one day earlier by less
  than a day. \<open>unset\<close> is \<open>set\<close> with the value \<open>null\<close>.
\<close>

theorem set_opts_expiry:
  fixes h :: clock and this call_options :: cookie_options and v :: "jsstring option"
    and n t :: int and st :: state and k :: jsstring
  defines "in_force \<equiv>
             (if v = None then Some (Integer (- 1))
              else (case days call_options of None \<Rightarrow> days this | Some d \<Rightarrow> Some d))"
  defines "moved \<equiv> LocalTime h (now h) + n * msPerDay"
  shows "days (set_opts h this v call_options) = in_force \<and>
         expires (set_opts h this v call_options) =
           (case in_force of
              Some (Integer m) \<Rightarrow> Some (expiry_in_days h m)
            | _ \<Rightarrow> (case expires call_options of None \<Rightarrow> expires this | Some e \<Rightarrow> Some e)) \<and>
         expiry_in_days h n = time_clip (moved - LocalTZA h moved False) \<and>
         (LocalTZA h moved False = LocalTZA h (now h) True \<longrightarrow>
            expiry_in_days h n = time_clip (now h + n * msPerDay)) \<and>
         (expiry_in_days h (- 1) = Date t \<longrightarrow>
            (t < now h \<longleftrightarrow>
             LocalTZA h (now h) True - LocalTZA h (LocalTime h (now h) - msPerDay) False
               < msPerDay)) \<and>
         unset h st k call_options = set_cookie h st k None call_options"
proof -
  have d: "days (set_opts h this v call_options) = in_force"
    unfolding in_force_def by (rule set_opts_days)
  have e: "expires (set_opts h this v call_options) =
           (case in_force of
              Some (Integer m) \<Rightarrow> Some (expiry_in_days h m)
            | _ \<Rightarrow> (case expires call_options of None \<Rightarrow> expires this | Some e \<Rightarrow> Some e))"
    unfolding d [symmetric] by (rule set_opts_expires)
  have local: "expiry_in_days h n = time_clip (moved - LocalTZA h moved False)"
    by (simp add: expiry_in_days_local UTC_def moved_def)
  have same: "expiry_in_days h n = time_clip (now h + n * msPerDay)"
    if "LocalTZA h moved False = LocalTZA h (now h) True"
    using that by (simp add: local) (simp add: moved_def LocalTime_def)
  have past: "t < now h \<longleftrightarrow>
      LocalTZA h (now h) True - LocalTZA h (LocalTime h (now h) - msPerDay) False < msPerDay"
    if "expiry_in_days h (- 1) = Date t"
  proof -
    from that have "t = LocalTime h (now h) - msPerDay -
        LocalTZA h (LocalTime h (now h) - msPerDay) False"
      by (simp add: expiry_in_days_local UTC_def time_clip_def split: if_splits)
    then show ?thesis by (auto simp: LocalTime_def)
  qed
  show ?thesis
    using d e local same past by (simp add: unset_def)
qed

theorem set_opts_expiry_witness:
  "expires (set_opts sample_clock no_options None no_options) = Some (Date 1513853859000) \<and>
   (1513853859000 :: int) < now sample_clock \<and>
   expires (set_opts sample_clock (no_options \<lparr> days := Some (Integer 1) \<rparr>)
              (Some (js ''bar'')) no_options) = Some (Date 1514026659000) \<and>
   expires (set_opts sample_clock (no_options \<lparr> days := Some (Integer 1) \<rparr>)
              (Some (js ''bar'')) (no_options \<lparr> days := Some (Integer 100) \<rparr>)) =
     Some (Date 1522576659000)"
proof -
  define one where "one = no_options \<lparr> days := Some (Integer 1) \<rparr>"
  define hundred where "hundred = no_options \<lparr> days := Some (Integer 100) \<rparr>"
  have yesterday: "expiry_in_days sample_clock (- 1) = Date 1513853859000" by code_simp
  have offsets:
    "LocalTZA sample_clock (LocalTime sample_clock (now sample_clock) + 1 * msPerDay) False =
       LocalTZA sample_clock (now sample_clock) True"
    "LocalTZA sample_clock (now sample_clock) True -
       LocalTZA sample_clock (LocalTime sample_clock (now sample_clock) - msPerDay) False
       < msPerDay"
    by code_simp+
  have clip: "time_clip (now sample_clock + 1 * msPerDay) = Date 1514026659000"
    "time_clip (LocalTime sample_clock (now sample_clock) + 100 * msPerDay -
       LocalTZA sample_clock (LocalTime sample_clock (now sample_clock) + 100 * msPerDay) False) =
     Date 1522576659000"
    by code_simp+
  have fields: "days no_options = None" "expires no_options = None"
    "days one = Some (Integer 1)" "days hundred = Some (Integer 100)"
    "expires one = None" "expires hundred = None"
    by (simp_all add: no_options_def one_def hundred_def)
  have "expires (set_opts sample_clock no_options None no_options) = Some (Date 1513853859000) \<and>
      (1513853859000 :: int) < now sample_clock"
    using set_opts_expiry [where h = sample_clock and this = no_options and v = None
        and call_options = no_options and t = 1513853859000] yesterday offsets(2)
    by simp
  moreover have "expires (set_opts sample_clock one (Some (js ''bar'')) no_options) =
      Some (Date 1514026659000)"
  proof -
    note tomorrow = set_opts_expiry [where h = sample_clock and this = one
        and v = "Some (js ''bar'')" and call_options = no_options and n = 1 and t = 0
        and st = initial and k = "[]"]
    from tomorrow offsets(1)
    have "expiry_in_days sample_clock 1 = time_clip (now sample_clock + 1 * msPerDay)"
      by blast
    moreover from tomorrow
    have "expires (set_opts sample_clock one (Some (js ''bar'')) no_options) =
        Some (expiry_in_days sample_clock 1)"
      by (simp add: fields)
    ultimately show ?thesis by (simp only: clip(1))
  qed
  moreover have "expires (set_opts sample_clock one (Some (js ''bar'')) hundred) =
      Some (Date 1522576659000)"
    using set_opts_expiry [where h = sample_clock and this = one and v = "Some (js ''bar'')"
        and call_options = hundred and n = 100] clip(2)
    by (simp add: fields)
  ultimately show ?thesis by (simp add: one_def hundred_def)
qed

text \<open>
  The claim as stated fails in its remark on the date: in Apia, half an hour after
  the midnight that followed the skipped 30 December 2011, the local time one day
  earlier falls into the skipped day and stands for the present instant, so the date
  that \<open>unset\<close> computes is now and not in the past.
\<close>

theorem set_opts_expiry_counterexample:
  "days (set_opts apia_clock no_options None no_options) = Some (Integer (- 1)) \<and>
   expires (set_opts apia_clock no_options None no_options) = Some (Date 1325241000000) \<and>
   now apia_clock = 1325241000000"
  by code_simp





subsection \<open>Writing and reading back\<close>

lemma set_opts_default: "set_opts h no_options (Some v) no_options = no_options"
  by (simp add: set_opts_def Let_def assign_no_options) (simp add: no_options_def)

lemma serialize_default:
  assumes "encodeURIComponent k = Inr safeKey" "encodeURIComponent v = Inr safeValue"
  shows "serialize h k (Some v) no_options = Inr (safeKey @ 0x3D # safeValue)"
  using assms
  by (simp add: serialize_def String_def cookieBuilder_def no_options_def truthy_def js_def)

text \<open>
  C4, as amended: let the key be well formed, not empty and without the characters
  \<open>( ) * .\<close>, the value be well formed, no options be configured or passed, and the
  store be as assignments leave it. Then \<open>set(k, v)\<close> returns, and \<open>get(k)\<close> after it
  (without \<open>raw\<close>) returns \<open>v\<close>.
\<close>

theorem set_then_get:
  assumes "well_formed k" "k \<noteq> []" "plain k" "well_formed v"
    and "well_formed_jar (jar st)" "options st = no_options" "\<not> truthy r"
  shows "\<exists>st'. set_cookie h st k (Some v) no_options = Inr st' \<and>
               get_cookie st' k d r = Inr (Text v)"
proof -
  from assms(1,4) obtain safeKey safeValue where
    enc: "encodeURIComponent k = Inr safeKey" "encodeURIComponent v = Inr safeValue"
    using encode_well_formed by blast
  note k = encode_escaped [OF enc(1)] and v = encode_escaped [OF enc(2)]
  have ne: "safeKey \<noteq> []" using encode_Nil [OF enc(1)] assms(2) by simp
  define st' where "st' = st \<lparr> jar := store safeKey safeValue (jar st) \<rparr>"
  have written: "set_cookie h st k (Some v) no_options = Inr st'"
    by (simp add: set_cookie_def assms(6) set_opts_default serialize_default [OF enc]
        write_pair [OF k ne v] st'_def)
  have "well_formed_jar (jar st')"
    using assms(5) ne escaped_units [OF k] escaped_units [OF v]
    by (simp add: st'_def well_formed_store)
  from get_cookie_plain [OF this enc(1) assms(3), of d r]
  have "get_cookie st' k d r = Inr (Text v)"
    using assms(7) decode_encode [OF enc(2)] by (simp add: st'_def map_of_store)
  with written show ?thesis by blast
qed

theorem set_then_get_witness:
  "get_cookie \<lparr> options = no_options, jar = [(js ''foo'', js ''bar'')] \<rparr> (js ''foo'')
     (None :: unit option) None = Inr (Text (js ''bar''))"
proof -
  have a: "well_formed (js ''foo'')" "js ''foo'' \<noteq> []" "plain (js ''foo'')" "well_formed (js ''bar'')"
    "well_formed_jar (jar initial)" "options initial = no_options" "\<not> truthy None"
    by code_simp+
  have "set_cookie sample_clock initial (js ''foo'') (Some (js ''bar'')) no_options =
      Inr \<lparr> options = no_options, jar = [(js ''foo'', js ''bar'')] \<rparr>"
    by code_simp
  with set_then_get [OF a, of sample_clock "None :: unit option"] show ?thesis by simp
qed

text \<open>
  The claim as stated fails in three ways. The key \<open>a*\<close> is written as the cookie
  \<open>a*=x\<close>, but the pattern \<open>(?:^|; )a*=([^;]*)\<close> that \<open>get\<close> builds from it does not
  match that text: \<open>get\<close> returns \<open>null\<close>. A value with a lone surrogate makes
  \<open>encodeURIComponent\<close> raise \<open>URIError\<close>. And the store ignores a cookie with an
  empty name.
\<close>

theorem set_then_get_counterexample:
  "set_cookie sample_clock initial (js ''a*'') (Some (js ''x'')) no_options =
     Inr \<lparr> options = no_options, jar = [(js ''a*'', js ''x'')] \<rparr> \<and>
   get_cookie \<lparr> options = no_options, jar = [(js ''a*'', js ''x'')] \<rparr> (js ''a*'')
     (None :: unit option) None = Inr Null \<and>
   set_cookie sample_clock initial (js ''k'') (Some [0xD800]) no_options = Inl URIError \<and>
   set_cookie sample_clock initial [] (Some (js ''bar'')) no_options = Inr initial \<and>
   get_cookie initial [] (None :: unit option) None = Inr Null"
  by code_simp

subsection \<open>Reading\<close>

lemma split_on_none: "a \<notin> set s \<Longrightarrow> split_on a s = [s]"
  by (induction s) auto

lemma no_empty_name: "well_formed_jar cookies \<Longrightarrow> map_of cookies [] = None"
  by (induction cookies) (auto simp: well_formed_jar_def)

lemma set_opts_null:
  "set_opts h no_options None no_options =
     no_options \<lparr> expires := Some (expiry_in_days h (- 1)), days := Some (Integer (- 1)) \<rparr>"
  by (simp add: set_opts_def Let_def assign_no_options)

lemma encode_null: "encodeURIComponent (js ''null'') = Inr (js ''null'')"
  by code_simp

lemma serialize_null:
  assumes "encodeURIComponent k = Inr safeKey"
  shows "serialize h k None (set_opts h no_options None no_options) =
     Inr ((safeKey @ 0x3D # js ''null'') @ 0x3B # (js '' expires='' @ toUTCString h (expiry_in_days h (- 1))))"
  using assms
  by (simp add: serialize_def String_def cookieBuilder_def set_opts_null encode_null)
     (simp add: no_options_def truthy_def js_def)

lemma expires_attribute:
  assumes "parse_cookie_date h (trim text) = Some t"
  shows "expiry_time h [js '' expires='' @ text] None = Some t"
proof -
  have "js '' expires='' @ text = js '' expires'' @ 0x3D # text" by (simp add: js_def)
  moreover have "0x3D \<notin> set (js '' expires'')" by (simp add: js_def)
  ultimately have "before 0x3D (js '' expires='' @ text) = js '' expires''"
    "after 0x3D (js '' expires='' @ text) = text"
    by (simp_all add: before_upto after_upto)
  moreover have "ascii_lower (trim (js '' expires'')) = js ''expires''"
    by code_simp
  ultimately show ?thesis using assms by simp
qed

lemma write_expired:
  assumes "escaped_text k" "0x3B \<notin> set text" "parse_cookie_date h (trim text) = Some t" "t < now h"
    and "well_formed_jar cookies"
  shows "map_of (write_cookie h ((k @ 0x3D # js ''null'') @ 0x3B # (js '' expires='' @ text)) cookies) k
           = None"
proof -
  note k = escaped_units [OF assms(1)]
  have pair: "0x3B \<notin> set (k @ 0x3D # js ''null'')" using k by (simp add: js_def)
  have "0x3B \<notin> set (js '' expires='' @ text)" using assms(2) by (simp add: js_def)
  then have attrs: "split_on 0x3B (js '' expires='' @ text) = [js '' expires='' @ text]"
    by (rule split_on_none)
  have name: "trim (before 0x3D (k @ 0x3D # js ''null'')) = k"
    using k by (simp add: before_upto trim_id)
  have "write_cookie h ((k @ 0x3D # js ''null'') @ 0x3B # (js '' expires='' @ text)) cookies =
      (if k = [] then cookies else filter (\<lambda>(m, w). m \<noteq> k) cookies)"
    using assms(4)
    by (simp add: write_cookie_def Let_def before_upto [OF pair] after_upto [OF pair] attrs name
        expires_attribute [OF assms(3)] del: expiry_time.simps append_assoc)
  then show ?thesis
    using no_empty_name [OF assms(5)] by (simp add: map_of_removed)
qed

lemma decode_error: "decodeURIComponent s = Inl e \<Longrightarrow> e = URIError"
proof (induction s rule: length_induct)
  case (1 s)
  note IH = "1.IH" [rule_format]
  show ?case
  proof (cases s)
    case Nil
    with "1.prems" show ?thesis by simp
  next
    case (Cons c cs)
    have len: "length (drop n cs) < length s" for n
      unfolding Cons length_drop by simp
    have shorter: "decodeURIComponent (drop n cs) = Inl e \<Longrightarrow> e = URIError" for n
      by (rule IH [OF len])
    show ?thesis
    proof (cases "c = 0x25")
      case False
      with "1.prems" Cons have "followed_by [c] (decodeURIComponent cs) = Inl e" by simp
      from followed_by_Inl [OF this] shorter [of 0] show ?thesis by simp
    next
      case True
      with "1.prems" Cons show ?thesis
        using shorter
        by (auto simp: Let_def simp del: escape_octet.simps
            split: option.splits if_splits dest!: followed_by_Inl)
    qed
  qed
qed

lemma raw_set_opts: "raw (set_opts h this v opts) = raw (assign this opts)"
  by (simp add: set_opts_def Let_def split: option.splits days_value.splits)

lemma serialize_returns:
  "(\<exists>s. serialize h k v opts = Inr s) \<longleftrightarrow>
     well_formed k \<and> (truthy (raw opts) \<or> well_formed (String v))"
proof -
  have "(\<exists>s. serialize h k v opts = Inr s) \<longleftrightarrow>
      (\<exists>a. encodeURIComponent k = Inr a) \<and>
      (truthy (raw opts) \<or> (\<exists>b. encodeURIComponent (String v) = Inr b))"
    by (auto simp: serialize_def split: sum.splits)
  then show ?thesis by (simp add: encode_well_formed)
qed

lemma serialize_error: "serialize h k v opts = Inl e \<Longrightarrow> e = URIError"
  by (auto simp: serialize_def split: sum.splits if_splits dest: encode_error)

lemma set_cookie_returns:
  "(\<exists>st'. set_cookie h st k v opts = Inr st') \<longleftrightarrow>
     well_formed k \<and> (truthy (raw (assign (options st) opts)) \<or> well_formed (String v))"
proof -
  have "(\<exists>st'. set_cookie h st k v opts = Inr st') \<longleftrightarrow>
      (\<exists>s. serialize h k v (set_opts h (options st) v opts) = Inr s)"
    by (auto simp: set_cookie_def split: sum.splits)
  then show ?thesis by (simp add: serialize_returns raw_set_opts)
qed

lemma set_cookie_error: "set_cookie h st k v opts = Inl e \<Longrightarrow> e = URIError"
  by (auto simp: set_cookie_def split: sum.splits dest: serialize_error)

lemma well_formed_null: "well_formed (String None)"
  by code_simp

lemma filter_lines_error:
  "filter_lines p xs = Inl e \<Longrightarrow> \<exists>x\<in>set xs. p x = Inl e"
  by (induction xs) (auto split: sum.splits)

text \<open>
  C6, as amended: let the store be as assignments leave it and the key be well formed
  (it has an encoding) and without the characters \<open>( ) * .\<close>. Then \<open>get(k, o)\<close> returns
  \<open>o.defaultValue\<close> (\<open>null\<close> when not given) when the store has no cookie named by the
  encoded key (in particular when it is empty); otherwise it takes the value of the
  first such cookie and returns it as it is under \<open>raw\<close>, and otherwise its decoding
  (the \<open>URIError\<close> of \<open>decodeURIComponent\<close> when it has none). And when no options are
  configured and the store reads the date that \<open>unset\<close> writes as a time before now,
  \<open>unset(k)\<close> followed by \<open>get(k, o)\<close> returns \<open>o.defaultValue\<close>.
\<close>

theorem get_cookie_lookup:
  fixes h :: clock
  assumes "well_formed_jar (jar st)" "encodeURIComponent k = Inr safeKey" "plain k"
  defines "yesterday \<equiv> toUTCString h (expiry_in_days h (- 1))"
  shows "get_cookie st k d r =
           (case map_of (jar st) safeKey of
              None \<Rightarrow> Inr (fallback d)
            | Some v \<Rightarrow> if truthy r then Inr (Text v) else map_sum id Text (decodeURIComponent v)) \<and>
         (options st = no_options \<and> 0x3B \<notin> set yesterday \<and>
          parse_cookie_date h (trim yesterday) = Some t \<and> t < now h \<longrightarrow>
            (\<exists>st'. unset h st k no_options = Inr st' \<and> get_cookie st' k d r = Inr (fallback d)))"
proof -
  have lookup: "get_cookie st k d r =
           (case map_of (jar st) safeKey of
              None \<Rightarrow> Inr (fallback d)
            | Some v \<Rightarrow> if truthy r then Inr (Text v) else map_sum id Text (decodeURIComponent v))"
    unfolding get_cookie_plain [OF assms(1-3)]
    by (simp split: option.splits sum.splits)
  have unsetting: "\<exists>st'. unset h st k no_options = Inr st' \<and> get_cookie st' k d r = Inr (fallback d)"
    if a: "options st = no_options" "0x3B \<notin> set yesterday"
      "parse_cookie_date h (trim yesterday) = Some t" "t < now h"
  proof -
    define written where
      "written = (safeKey @ 0x3D # js ''null'') @ 0x3B # (js '' expires='' @ yesterday)"
    define st' where "st' = st \<lparr> jar := write_cookie h written (jar st) \<rparr>"
    have "unset h st k no_options = Inr st'"
      by (simp add: unset_def set_cookie_def a(1) serialize_null [OF assms(2)] st'_def written_def
          yesterday_def)
    moreover have "well_formed_jar (jar st')"
      by (simp add: st'_def write_well_formed [OF assms(1)])
    from get_cookie_plain [OF this assms(2,3), of d r]
    have "get_cookie st' k d r = Inr (fallback d)"
      using write_expired [OF encode_escaped [OF assms(2)] a(2,3,4) assms(1)]
      by (simp add: st'_def written_def)
    ultimately show ?thesis by blast
  qed
  from lookup unsetting show ?thesis by blast
qed

theorem get_cookie_lookup_witness:
  "get_cookie \<lparr> options = no_options, jar = [(js ''yolo'', js ''bar%20yolo'')] \<rparr> (js ''yolo'')
     (None :: unit option) None = Inr (Text (js ''bar yolo'')) \<and>
   get_cookie \<lparr> options = no_options, jar = [(js ''yolo'', js ''bar%20yolo'')] \<rparr> (js ''yolo'')
     (None :: unit option) (Some True) = Inr (Text (js ''bar%20yolo'')) \<and>
   get_cookie \<lparr> options = no_options, jar = [(js ''yolo'', js ''bar%20yolo'')] \<rparr> (js ''nonexistant'')
     (Some (1 :: int)) None = Inr (Default 1) \<and>
   unset sample_clock \<lparr> options = no_options, jar = [(js ''foo'', js ''bar'')] \<rparr> (js ''foo'') no_options =
     Inr initial \<and>
   get_cookie initial (js ''foo'') (None :: unit option) None = Inr Null"
proof -
  define st where "st = \<lparr> options = no_options, jar = [(js ''yolo'', js ''bar%20yolo'')] \<rparr>"
  define st2 where "st2 = \<lparr> options = no_options, jar = [(js ''foo'', js ''bar'')] \<rparr>"
  have wf: "well_formed_jar (jar st)" "well_formed_jar (jar st2)"
    unfolding st_def st2_def by code_simp+
  have enc: "encodeURIComponent (js ''yolo'') = Inr (js ''yolo'')"
    "encodeURIComponent (js ''nonexistant'') = Inr (js ''nonexistant'')"
    "encodeURIComponent (js ''foo'') = Inr (js ''foo'')"
    by code_simp+
  have plain: "plain (js ''yolo'')" "plain (js ''nonexistant'')" "plain (js ''foo'')"
    by code_simp+
  have dec: "decodeURIComponent (js ''bar%20yolo'') = Inr (js ''bar yolo'')" by code_simp
  have stored: "map_of (jar st) (js ''yolo'') = Some (js ''bar%20yolo'')"
    "map_of (jar st) (js ''nonexistant'') = None"
    unfolding st_def by code_simp+
  have a: "get_cookie st (js ''yolo'') (None :: unit option) None = Inr (Text (js ''bar yolo''))"
    using get_cookie_lookup [OF wf(1) enc(1) plain(1), where d = "None :: unit option" and r = None]
    by (simp add: stored dec truthy_def)
  have b: "get_cookie st (js ''yolo'') (None :: unit option) (Some True) = Inr (Text (js ''bar%20yolo''))"
    using get_cookie_lookup [OF wf(1) enc(1) plain(1), where d = "None :: unit option"
        and r = "Some True"]
    by (simp add: stored truthy_def)
  have c: "get_cookie st (js ''nonexistant'') (Some (1 :: int)) None = Inr (Default 1)"
    using get_cookie_lookup [OF wf(1) enc(2) plain(2), where d = "Some (1 :: int)" and r = None]
    by (simp add: stored fallback_def)
  have date: "options st2 = no_options \<and>
      0x3B \<notin> set (toUTCString sample_clock (expiry_in_days sample_clock (- 1))) \<and>
      parse_cookie_date sample_clock
        (trim (toUTCString sample_clock (expiry_in_days sample_clock (- 1)))) =
        Some 1513853859000 \<and>
      1513853859000 < now sample_clock"
    unfolding st2_def by code_simp
  have written: "unset sample_clock st2 (js ''foo'') no_options = Inr initial"
    unfolding st2_def by code_simp
  with get_cookie_lookup [OF wf(2) enc(3) plain(3), where d = "None :: unit option" and r = None
      and h = sample_clock and t = 1513853859000] date
  have "get_cookie initial (js ''foo'') (None :: unit option) None = Inr Null"
    by (simp add: fallback_def)
  with a b c written show ?thesis by (simp add: st_def st2_def)
qed

text \<open>
  The claim as stated fails: for the key \<open>a*\<close>, \<open>get\<close> returns the value of the cookie
  \<open>aaa\<close> although the store has no cookie \<open>a*\<close>, and returns \<open>null\<close> although the
  store has the cookie \<open>a*\<close>; and a stored value that is not a valid encoding, as
  \<open>100%\<close>, makes \<open>get\<close> raise \<open>URIError\<close>.
\<close>

theorem get_cookie_lookup_counterexample:
  "get_cookie \<lparr> options = no_options, jar = [(js ''aaa'', js ''x'')] \<rparr> (js ''a*'')
     (None :: unit option) None = Inr (Text (js ''x'')) \<and>
   get_cookie \<lparr> options = no_options, jar = [(js ''a*'', js ''x'')] \<rparr> (js ''a*'')
     (None :: unit option) None = Inr Null \<and>
   get_cookie \<lparr> options = no_options, jar = [(js ''a'', js ''100%'')] \<rparr> (js ''a'')
     (None :: unit option) None = Inl URIError"
  by code_simp

subsection \<open>Errors\<close>

lemma matches_error:
  "matches h q = Inl e \<Longrightarrow> \<exists>operator version. compareVersion_of h (currentVersion h) operator version = Inl e"
  by (auto simp: matches_def Let_def split: if_splits)

lemma oneOf_error: "oneOf h X = Inl e \<Longrightarrow> \<exists>q\<in>set (as_list X). matches h q = Inl e"
  by (auto simp: oneOf_def split: sum.splits dest: filter_lines_error)

lemma isOutdated_error: "isOutdated h X = Inl e \<longleftrightarrow> oneOf h X = Inl e"
  by (auto simp: isOutdated_def split: sum.splits)

lemma get_cookie_error:
  assumes "well_formed_jar (jar st)" "encodeURIComponent k = Inr safeKey" "plain k"
  shows "get_cookie st k d r = Inl e \<longleftrightarrow>
           e = URIError \<and> \<not> truthy r \<and>
           (\<exists>v. map_of (jar st) safeKey = Some v \<and> decodeURIComponent v = Inl URIError)"
  unfolding get_cookie_plain [OF assms]
  by (auto split: option.splits sum.splits dest: decode_error)

text \<open>
  C5, as amended: \<open>configure\<close> stores the options and does nothing else. \<open>set\<close>
  returns exactly when the key is well formed and the value is well formed or \<open>raw\<close>
  is in force; \<open>unset\<close> returns exactly when the key is well formed; both raise
  nothing but \<open>URIError\<close>. \<open>get\<close> returns the default on an empty store; on a store as
  assignments leave it and for a well-formed key without the characters \<open>( ) * .\<close>, it
  raises exactly when \<open>raw\<close> is not set and the value found has no decoding, and then
  \<open>URIError\<close>. \<open>matches\<close> raises only what \<open>compareVersion\<close> raises, \<open>oneOf\<close> only what
  \<open>matches\<close> raises for one of its queries, and \<open>isOutdated\<close> what \<open>oneOf\<close> raises.
\<close>

theorem raises_only_when:
  "options (configure st opts) = opts \<and> jar (configure st opts) = jar st \<and>
   ((\<exists>st'. set_cookie h st k v opts = Inr st') \<longleftrightarrow>
      well_formed k \<and> (truthy (raw (assign (options st) opts)) \<or> well_formed (String v))) \<and>
   (set_cookie h st k v opts = Inl e \<longrightarrow> e = URIError) \<and>
   ((\<exists>st'. unset h st k opts = Inr st') \<longleftrightarrow> well_formed k) \<and>
   (unset h st k opts = Inl e \<longrightarrow> e = URIError) \<and>
   (jar st = [] \<longrightarrow> get_cookie st k d r = Inr (fallback d)) \<and>
   (well_formed_jar (jar st) \<and> encodeURIComponent k = Inr safeKey \<and> plain k \<longrightarrow>
      (get_cookie st k d r = Inl e \<longleftrightarrow>
         e = URIError \<and> \<not> truthy r \<and>
         (\<exists>w. map_of (jar st) safeKey = Some w \<and> decodeURIComponent w = Inl URIError))) \<and>
   (matches b q = Inl e \<longrightarrow>
      (\<exists>operator version. compareVersion_of b (currentVersion b) operator version = Inl e)) \<and>
   (oneOf b X = Inl e \<longrightarrow> (\<exists>q\<in>set (as_list X). matches b q = Inl e)) \<and>
   (isOutdated b X = Inl e \<longleftrightarrow> oneOf b X = Inl e)"
proof -
  have configured: "options (configure st opts) = opts \<and> jar (configure st opts) = jar st"
    by (simp add: configure_def assign_no_options)
  have unsetting: "(\<exists>st'. unset h st k opts = Inr st') \<longleftrightarrow> well_formed k"
    unfolding unset_def set_cookie_returns using well_formed_null by simp
  have empty: "get_cookie st k d r = Inr (fallback d)" if "jar st = []"
    using that by (simp add: get_cookie_def read_cookie_Nil)
  show ?thesis
    using configured unsetting empty set_cookie_returns [of h st k v opts]
      set_cookie_error [of h st k v opts e] set_cookie_error [of h st k None opts e]
      get_cookie_error [of st k safeKey d r e]
      matches_error [of b q e] oneOf_error [of b X e] isOutdated_error [of b X e]
    unfolding unset_def by blast
qed

theorem raises_only_when_witness:
  "(\<exists>st'. set_cookie sample_clock initial (js ''foo'') (Some (js ''bar'')) no_options = Inr st') \<and>
   (\<exists>st'. unset sample_clock initial (js ''foo'') no_options = Inr st') \<and>
   get_cookie initial (js ''foo'') (None :: unit option) None = Inr Null \<and>
   (\<forall>e. get_cookie \<lparr> options = no_options, jar = [(js ''a'', js ''100%'')] \<rparr> (js ''a'')
          (None :: unit option) (Some True) \<noteq> Inl e) \<and>
   (\<exists>operator version.
      compareVersion_of chrome_mac (currentVersion chrome_mac) operator version = Inl TypeError)"
proof -
  define st where "st = \<lparr> options = no_options, jar = [(js ''a'', js ''100%'')] \<rparr>"
  have wf: "well_formed (js ''foo'')" "well_formed (String (Some (js ''bar'')))"
    by code_simp+
  have a: "\<exists>st'. set_cookie sample_clock initial (js ''foo'') (Some (js ''bar'')) no_options = Inr st'"
    using raises_only_when [where h = sample_clock and st = initial and k = "js ''foo''"
        and v = "Some (js ''bar'')" and opts = no_options] wf
    by blast
  have b: "\<exists>st'. unset sample_clock initial (js ''foo'') no_options = Inr st'"
    using raises_only_when [where h = sample_clock and st = initial and k = "js ''foo''"
        and opts = no_options] wf
    by blast
  have "jar initial = []" by (simp add: initial_def)
  then have c: "get_cookie initial (js ''foo'') (None :: unit option) None = Inr Null"
    using raises_only_when [where st = initial and k = "js ''foo''"
        and d = "None :: unit option" and r = None]
    by (simp add: fallback_def)
  have key: "well_formed_jar (jar st)" "encodeURIComponent (js ''a'') = Inr (js ''a'')" "plain (js ''a'')"
    "truthy (Some True)"
    unfolding st_def by code_simp+
  have d: "get_cookie st (js ''a'') (None :: unit option) (Some True) \<noteq> Inl e" for e
    using raises_only_when [where st = st and k = "js ''a''" and safeKey = "js ''a''"
        and d = "None :: unit option" and r = "Some True" and e = e] key
    by blast
  have "matches chrome_mac (js ''chrome >='') = Inl TypeError" by code_simp
  then have e: "\<exists>operator version.
      compareVersion_of chrome_mac (currentVersion chrome_mac) operator version = Inl TypeError"
    using raises_only_when [where b = chrome_mac and q = "js ''chrome >=''" and e = TypeError]
    by blast
  from a b c d e show ?thesis unfolding st_def by blast
qed

text \<open>
  The claim as stated fails: \<open>get\<close> raises \<open>URIError\<close> on a stored value that is not
  a valid encoding and \<open>SyntaxError\<close> for the key \<open>(\<close>, and \<open>set\<close> raises \<open>URIError\<close>
  for a value with a lone surrogate.
\<close>

theorem raises_only_when_counterexample:
  "get_cookie \<lparr> options = no_options, jar = [(js ''a'', js ''100%'')] \<rparr> (js ''a'')
     (None :: unit option) None = Inl URIError \<and>
   get_cookie \<lparr> options = no_options, jar = [(js ''a'', js ''1'')] \<rparr> (js ''('')
     (None :: unit option) None = Inl SyntaxError \<and>
   set_cookie sample_clock initial (js ''k'') (Some [0xD800]) no_options = Inl URIError"
  by code_simp

section \<open>Properties of the modules modelled from the spec\<close>

lemma zeros_Nil: "compare_components (replicate n 0) [] = Equal"
  by (induction n) simp_all

lemma Nil_zeros: "compare_components [] (replicate n 0) = Equal"
  by (induction n) simp_all

lemma zeros_left: "compare_components (replicate n 0) e = compare_components [] e"
proof (induction e arbitrary: n)
  case Nil
  show ?case by (simp add: zeros_Nil)
next
  case (Cons b e)
  show ?case
  proof (cases n)
    case 0
    then show ?thesis by simp
  next
    case (Suc m)
    with Cons [of m] show ?thesis by simp
  qed
qed

lemma zeros_right: "compare_components a (replicate n 0) = compare_components a []"
proof (induction a arbitrary: n)
  case Nil
  show ?case by (simp add: Nil_zeros)
next
  case (Cons x a)
  show ?case
  proof (cases n)
    case 0
    then show ?thesis by simp
  next
    case (Suc m)
    with Cons [of m] show ?thesis by simp
  qed
qed

lemma padded_left: "compare_components (a @ replicate n 0) e = compare_components a e"
proof (induction a arbitrary: e)
  case Nil
  show ?case by (simp add: zeros_left)
next
  case (Cons x a)
  then show ?case by (cases e) simp_all
qed

lemma padded_right: "compare_components a (e @ replicate n 0) = compare_components a e"
proof (induction e arbitrary: a)
  case Nil
  show ?case by (simp add: zeros_right)
next
  case (Cons y e)
  then show ?case by (cases a) simp_all
qed

lemma decimal_digits_append:
  "decimal_digits k (s @ t) =
     (case decimal_digits k s of None \<Rightarrow> None | Some j \<Rightarrow> decimal_digits j t)"
  by (induction s arbitrary: k) simp_all

lemma digit_unit:
  assumes "d < 10"
  shows "0x30 \<le> code_unit (0x30 + d)" "code_unit (0x30 + d) \<le> 0x39"
    "unat (code_unit (0x30 + d)) = 0x30 + d" "code_unit (0x30 + d) \<noteq> 0x2E"
proof -
  from assms have u: "unat (code_unit (0x30 + d)) = 0x30 + d"
    by (simp add: unat_code_unit)
  then show "unat (code_unit (0x30 + d)) = 0x30 + d" .
  from u assms show "0x30 \<le> code_unit (0x30 + d)" "code_unit (0x30 + d) \<le> 0x39"
    by (simp_all add: word_le_nat_alt)
  from u show "code_unit (0x30 + d) \<noteq> 0x2E"
    by (auto simp: word_unat_eq_iff)
qed

lemma decimal_digits_digit:
  assumes "d < 10"
  shows "decimal_digits k [code_unit (0x30 + d)] = Some (10 * k + int d)"
  by (simp add: digit_unit [OF assms])

lemma decimal_digits_text: "decimal_digits 0 (decimal_text n) = Some (int n)"
proof (induction n rule: decimal_text.induct)
  case (1 n)
  show ?case
  proof (cases "n < 10")
    case True
    then have single: "decimal_text n = [code_unit (0x30 + n)]"
      by (simp add: decimal_text.simps [of n])
    show ?thesis
      unfolding single decimal_digits_digit [OF True] by simp
  next
    case False
    then have longer: "decimal_text n = decimal_text (n div 10) @ [code_unit (0x30 + n mod 10)]"
      by (simp add: decimal_text.simps [of n])
    from False 1 have "decimal_digits 0 (decimal_text (n div 10)) = Some (int (n div 10))"
      by simp
    moreover have "decimal_digits (int (n div 10)) [code_unit (0x30 + n mod 10)] =
        Some (10 * int (n div 10) + int (n mod 10))"
      by (rule decimal_digits_digit) simp
    moreover have "10 * int (n div 10) + int (n mod 10) = int n"
      by (simp add: zdiv_int zmod_int)
    ultimately show ?thesis
      unfolding longer decimal_digits_append by (simp del: decimal_digits.simps)
  qed
qed

lemma decimal_text_not_Nil: "decimal_text n \<noteq> []"
  by (simp add: decimal_text.simps [of n])

lemma decimal_decimal_text: "decimal (decimal_text n) = Some (int n)"
  by (simp add: decimal_def decimal_text_not_Nil decimal_digits_text)

lemma no_dot: "0x2E \<notin> set (decimal_text n)"
proof (induction n rule: decimal_text.induct)
  case (1 n)
  show ?case
  proof (cases "n < 10")
    case True
    then show ?thesis
      using digit_unit(4) [of n] by (simp add: decimal_text.simps [of n])
  next
    case False
    with 1 have "0x2E \<notin> set (decimal_text (n div 10))" by simp
    moreover have "code_unit (0x30 + n mod 10) \<noteq> 0x2E"
      by (rule digit_unit(4)) simp
    ultimately show ?thesis
      using False by (simp add: decimal_text.simps [of n])
  qed
qed

lemma split_on_append:
  "a \<notin> set x \<Longrightarrow> split_on a (x @ a # rest) = x # split_on a rest"
  by (induction x) auto

lemma split_on_join:
  "\<forall>x\<in>set (p # ps). a \<notin> set x \<Longrightarrow> split_on a (join [a] (p # ps)) = p # ps"
proof (induction ps arbitrary: p)
  case Nil
  then show ?case by (simp add: split_on_none)
next
  case (Cons q qs)
  then have "split_on a (join [a] (q # qs)) = q # qs" by simp
  with Cons.prems show ?case by (simp add: split_on_append)
qed

lemma all_some_decimal:
  "all_some (map decimal (map decimal_text ns)) = Some (map int ns)"
  by (induction ns) (simp_all add: decimal_decimal_text)

lemma components_dotted:
  "all_some (map decimal (split_on 0x2E (dotted (n # ns)))) = Some (map int (n # ns))"
proof -
  have "split_on 0x2E (dotted (n # ns)) = map decimal_text (n # ns)"
    unfolding dotted_def list.map
    by (rule split_on_join) (auto simp: no_dot)
  then show ?thesis by (simp only: all_some_decimal)
qed

lemma compare_same_length:
  "length a = length e \<Longrightarrow>
     (compare_components a e = Less \<longleftrightarrow> ord_class.lexordp a e) \<and>
     (compare_components a e = Greater \<longleftrightarrow> ord_class.lexordp e a) \<and>
     (compare_components a e = Equal \<longleftrightarrow> a = e)"
  by (induction a e rule: list_induct2) (auto simp: lexordp_simps)

lemma compare_padded:
  fixes a e :: "int list"
  defines "m \<equiv> max (length a) (length e)"
  shows "(compare_components a e = Less \<longleftrightarrow> ord_class.lexordp (padded m a) (padded m e)) \<and>
         (compare_components a e = Greater \<longleftrightarrow> ord_class.lexordp (padded m e) (padded m a)) \<and>
         (compare_components a e = Equal \<longleftrightarrow> padded m a = padded m e)"
proof -
  have "compare_components a e = compare_components (padded m a) (padded m e)"
    by (simp add: padded_def padded_left padded_right)
  moreover have "length (padded m a) = length (padded m e)"
    by (simp add: padded_def m_def)
  ultimately show ?thesis using compare_same_length by simp
qed

lemma holds_operators:
  "holds (js ''<'') c = Some (c = Less)"
  "holds (js ''<='') c = Some (c \<noteq> Greater)"
  "holds (js ''>'') c = Some (c = Greater)"
  "holds (js ''>='') c = Some (c \<noteq> Less)"
  "holds (js ''=='') c = Some (c = Equal)"
  "holds (js ''='') c = Some (c = Equal)"
  "holds (js ''!='') c = Some (c \<noteq> Equal)"
  by (simp_all add: holds_def js_def)

text \<open>
  C2: for every version sequence and every expected text that is a dotted sequence of
  decimal numbers, \<open>compareVersion\<close> extends the shorter of the two sequences by zeros
  to the length of the longer and compares the results in the lexicographic order of
  their components, from left to right: \<open><\<close> holds when the actual sequence comes
  before the expected one, \<open>>\<close> when it comes after, \<open>==\<close> and \<open>=\<close> when the two are the
  same, and \<open><=\<close>, \<open>>=\<close> and \<open>!=\<close> accordingly. The three examples of the spec hold.
\<close>

theorem compareVersion_components:
  fixes actual :: "int list" and n :: nat and ns :: "nat list"
  defines "expected \<equiv> dotted (n # ns)"
  defines "m \<equiv> max (length actual) (length (n # ns))"
  defines "a \<equiv> padded m actual" and "e \<equiv> padded m (map int (n # ns))"
  shows "compareVersion actual (js ''<'') expected = Some (ord_class.lexordp a e) \<and>
         compareVersion actual (js ''<='') expected = Some (ord_class.lexordp a e \<or> a = e) \<and>
         compareVersion actual (js ''>'') expected = Some (ord_class.lexordp e a) \<and>
         compareVersion actual (js ''>='') expected = Some (ord_class.lexordp e a \<or> a = e) \<and>
         compareVersion actual (js ''=='') expected = Some (a = e) \<and>
         compareVersion actual (js ''='') expected = Some (a = e) \<and>
         compareVersion actual (js ''!='') expected = Some (a \<noteq> e) \<and>
         compareVersion [62, 0, 3202, 94] (js ''>='') (js ''62.0'') = Some True \<and>
         compareVersion [5, 0] (js ''<'') (js ''6'') = Some True \<and>
         compareVersion [1, 2] (js ''=='') (js ''1.2.0'') = Some True"
proof -
  define c where "c = compare_components actual (map int (n # ns))"
  have cv: "compareVersion actual operator expected = holds operator c" for operator
    unfolding compareVersion_def expected_def components_dotted c_def by simp
  have m: "m = max (length actual) (length (map int (n # ns)))" by (simp add: m_def)
  note p = compare_padded [of actual "map int (n # ns)", folded m, folded a_def e_def, folded c_def]
  have cases: "c = Less \<or> c = Equal \<or> c = Greater" by (cases c) simp_all
  have examples: "compareVersion [62, 0, 3202, 94] (js ''>='') (js ''62.0'') = Some True"
    "compareVersion [5, 0] (js ''<'') (js ''6'') = Some True"
    "compareVersion [1, 2] (js ''=='') (js ''1.2.0'') = Some True"
    by code_simp+
  have "holds (js ''<'') c = Some (ord_class.lexordp a e)" using p by (simp add: holds_operators)
  moreover have "holds (js ''<='') c = Some (ord_class.lexordp a e \<or> a = e)"
    using p cases by (auto simp: holds_operators)
  moreover have "holds (js ''>'') c = Some (ord_class.lexordp e a)" using p by (simp add: holds_operators)
  moreover have "holds (js ''>='') c = Some (ord_class.lexordp e a \<or> a = e)"
    using p cases by (auto simp: holds_operators)
  moreover have "holds (js ''=='') c = Some (a = e)" "holds (js ''='') c = Some (a = e)"
    "holds (js ''!='') c = Some (a \<noteq> e)"
    using p by (simp_all add: holds_operators)
  ultimately show ?thesis using examples by (simp only: cv simp_thms)
qed


theorem compareVersion_components_witness:
  "compareVersion [1, 2] (js ''=='') (dotted [1, 2, 0]) = Some True \<and>
   compareVersion [62, 0, 3202, 94] (js ''<'') (dotted [62, 1]) = Some True \<and>
   compareVersion [] (js ''>='') (dotted [0]) = Some True \<and>
   compareVersion [5, 0] (js ''>'') (dotted [6]) = Some False"
proof -
  have "compareVersion [1, 2] (js ''=='') (dotted [1, 2, 0]) = Some True"
    using compareVersion_components [where actual = "[1, 2]" and n = 1 and ns = "[2, 0]"]
    by (simp add: padded_def)
  moreover have "compareVersion [62, 0, 3202, 94] (js ''<'') (dotted [62, 1]) = Some True"
    using compareVersion_components [where actual = "[62, 0, 3202, 94]" and n = 62 and ns = "[1]"]
    by (simp add: padded_def lexordp_simps)
  moreover have "compareVersion [] (js ''>='') (dotted [0]) = Some True"
    using compareVersion_components [where actual = "[]" and n = 0 and ns = "[]"]
    by (simp add: padded_def)
  moreover have "compareVersion [5, 0] (js ''>'') (dotted [6]) = Some False"
    using compareVersion_components [where actual = "[5, 0]" and n = 6 and ns = "[]"]
    by (simp add: padded_def lexordp_simps)
  ultimately show ?thesis by simp
qed








end
